theory Spec2Isabelle
  imports Main "HOL-Library.AList"
begin

section \<open>JavaScript values, exceptions and insertion-ordered collections\<close>

text \<open>
  The plugin is TypeScript, but what it reads from the persisted cache file and what the
  injected \<^verbatim>\<open>uploadContent\<close> resolves with are arbitrary run-time values; the code
  inspects them only through truthiness (\<^verbatim>\<open>url && ...\<close>, \<^verbatim>\<open>cacheUrl || ...\<close>,
  \<^verbatim>\<open>if (publicPath)\<close>) and \<^verbatim>\<open>typeof url === 'string'\<close>.  Numbers are restricted to
  integers: only whether a number is zero is ever observed.
\<close>

datatype jsval =
    JUndefined
  | JNull
  | JBool bool
  | JNum int
  | JStr string
  | JArr "jsval list"
  | JObj "(string \<times> jsval) list"
  | JFunc

fun truthy :: "jsval \<Rightarrow> bool" where
  "truthy JUndefined = False"
| "truthy JNull = False"
| "truthy (JBool b) = b"
| "truthy (JNum n) = (n \<noteq> 0)"
| "truthy (JStr s) = (s \<noteq> [])"
| "truthy (JArr _) = True"
| "truthy (JObj _) = True"
| "truthy JFunc = True"

fun typeof_string :: "jsval \<Rightarrow> bool" where
  "typeof_string (JStr _) = True"
| "typeof_string _ = False"

datatype exn =
    SyntaxError
  | TypeError
  | Thrown string
  | Failure string

text \<open>
  \<^verbatim>\<open>s.endsWith(t)\<close>.
\<close>

definition endsWith :: "string \<Rightarrow> string \<Rightarrow> bool" where
  "endsWith s t = (length t \<le> length s \<and> drop (length s - length t) s = t)"

text \<open>
  A JavaScript \<^verbatim>\<open>Set\<close> and \<^verbatim>\<open>Map\<close> iterate in insertion order.  A set is a list
  without duplicates, a map an association list; \<^verbatim>\<open>Map.prototype.set\<close> overwrites the
  value of a key that is present where it stands and appends a new key at the end, which is
  what \<^const>\<open>AList.update\<close> does.
\<close>

definition Set_add :: "'a \<Rightarrow> 'a list \<Rightarrow> 'a list" where
  "Set_add x xs = (if x \<in> set xs then xs else xs @ [x])"

definition Map_set :: "'k \<Rightarrow> 'v \<Rightarrow> ('k \<times> 'v) list \<Rightarrow> ('k \<times> 'v) list" where
  "Map_set k v m = AList.update k v m"

definition Map_get :: "(string \<times> jsval) list \<Rightarrow> string \<Rightarrow> jsval" where
  "Map_get m k = (case map_of m k of None \<Rightarrow> JUndefined | Some v \<Rightarrow> v)"

definition new_Map :: "('k \<times> 'v) list \<Rightarrow> ('k \<times> 'v) list" where
  "new_Map es = foldl (\<lambda>m (k, v). Map_set k v m) [] es"

section \<open>\<^verbatim>\<open>apply\<close>: the production-mode guard\<close>

text \<open>
  \<^verbatim>\<open>(process.env.NODE_ENV || compiler.options.mode) !== 'production'\<close>: both operands
  are a string or undefined (\<^const>\<open>None\<close>); \<^verbatim>\<open>||\<close> yields its left operand when that
  is truthy, that is a non-empty string.
\<close>

definition js_or :: "string option \<Rightarrow> string option \<Rightarrow> string option" where
  "js_or a b = (case a of None \<Rightarrow> b | Some s \<Rightarrow> if s \<noteq> [] then Some s else b)"

definition production :: "string option \<Rightarrow> string option \<Rightarrow> bool" where
  "production NODE_ENV mode = (js_or NODE_ENV mode = Some ''production'')"

section \<open>The \<^verbatim>\<open>initialize\<close> hook: loading the persisted cache\<close>

text \<open>
  What the hook finds at \<^verbatim>\<open>cacheLocalPath\<close>: nothing (\<^verbatim>\<open>fs.existsSync\<close> is false), a
  path that \<^verbatim>\<open>fs.readFileSync\<close> cannot read, a text that \<^verbatim>\<open>JSON.parse\<close> rejects with a
  SyntaxError (the empty file, \<^verbatim>\<open>{\<close>, \<^verbatim>\<open>{"a":\<close>, ...), or a text that parses to a value.
\<close>

datatype cache_file =
    Missing
  | Unreadable string
  | Malformed
  | Parsed jsval

fun show_digits :: "nat \<Rightarrow> nat \<Rightarrow> string" where
  "show_digits 0 n = []"
| "show_digits (Suc f) n =
     (if n < 10 then [char_of (48 + n)]
      else show_digits f (n div 10) @ [char_of (48 + n mod 10)])"

definition show_nat :: "nat \<Rightarrow> string" where
  "show_nat n = show_digits (Suc n) n"

text \<open>
  \<^verbatim>\<open>Object.entries(v)\<close>: a TypeError on null and undefined, no entries for a boolean, a
  number or a function, the indexed characters of a string, the indexed elements of an
  array, the own properties of an object.
\<close>

fun Object_entries :: "jsval \<Rightarrow> exn + (string \<times> jsval) list" where
  "Object_entries JUndefined = Inl TypeError"
| "Object_entries JNull = Inl TypeError"
| "Object_entries (JBool _) = Inr []"
| "Object_entries (JNum _) = Inr []"
| "Object_entries JFunc = Inr []"
| "Object_entries (JStr s) = Inr (map (\<lambda>i. (show_nat i, JStr [s ! i])) [0..<length s])"
| "Object_entries (JArr xs) = Inr (map (\<lambda>i. (show_nat i, xs ! i)) [0..<length xs])"
| "Object_entries (JObj es) = Inr es"

text \<open>
  The hook starts from \<^verbatim>\<open>urlCacheMap = new Map()\<close> and has no \<^verbatim>\<open>try\<close>: whatever
  \<^verbatim>\<open>readFileSync\<close>, \<^verbatim>\<open>JSON.parse\<close> or \<^verbatim>\<open>Object.entries\<close> throws leaves the hook.
\<close>

fun initialize_hook :: "cache_file \<Rightarrow> exn + (string \<times> jsval) list" where
  "initialize_hook Missing = Inr []"
| "initialize_hook (Unreadable msg) = Inl (Failure msg)"
| "initialize_hook Malformed = Inl SyntaxError"
| "initialize_hook (Parsed v) =
     (case Object_entries v of Inl e \<Rightarrow> Inl e | Inr es \<Rightarrow> Inr (new_Map es))"

section \<open>The \<^verbatim>\<open>thisCompilation\<close> hook: the publicPath check\<close>

definition thisCompilation_hook :: "jsval \<Rightarrow> exn + unit" where
  "thisCompilation_hook publicPath =
     (if truthy publicPath then Inl (Thrown ''Error: You should set publicPath to \"\"'')
      else Inr ())"

section \<open>Assets and the collaborators the plugin imports\<close>

text \<open>
  An asset's source is a string or a \<^verbatim>\<open>Buffer\<close>; \<^verbatim>\<open>toString\<close> reads a buffer's bytes as
  text.
\<close>

datatype content = Text string | Buffer string

fun toString :: "content \<Rightarrow> string" where
  "toString (Text s) = s"
| "toString (Buffer b) = b"

text \<open>
  The functions the plugin imports and does not define: \<^verbatim>\<open>md5\<close>, \<^verbatim>\<open>path.extname\<close>,
  \<^verbatim>\<open>String.prototype.localeCompare\<close> (the collation of the host's locale), and the four
  rewriters of \<^verbatim>\<open>./utils\<close>, which are taken as pure functions.  A rewriter's first
  argument is whatever \<^verbatim>\<open>assetMap.get(name)\<close> returns, cast to \<^verbatim>\<open>string\<close> by the
  source: a text, a buffer, or undefined (\<^const>\<open>None\<close>).
\<close>

record collaborators =
  md5 :: "content \<Rightarrow> string"
  extname :: "string \<Rightarrow> string"
  localeCompare :: "string \<Rightarrow> string \<Rightarrow> int"
  replacePublicPath :: "string \<Rightarrow> string"
  replaceCSSUrls :: "string \<Rightarrow> content option \<Rightarrow> (string \<times> string) list \<Rightarrow> string"
  injectAssetManifest :: "content option \<Rightarrow> string \<Rightarrow> string"
  interpolateHTMLAssets :: "content option \<Rightarrow> (string \<times> string) list \<Rightarrow> string \<Rightarrow> string"

datatype manifest_option = ManifestUnset | ManifestFlag bool | ManifestName string

record options =
  keepLocalFiles :: "bool option"
  manifestFilename :: manifest_option

section \<open>The \<^verbatim>\<open>processAssets\<close> and \<^verbatim>\<open>emit\<close> hooks\<close>

definition processAssets_hook ::
  "collaborators \<Rightarrow> (string \<times> content) list \<Rightarrow> (string \<times> content) list" where
  "processAssets_hook P assets =
     map (\<lambda>(filename, source).
            if endsWith filename ''.js''
            then (filename, Text (replacePublicPath P (toString source)))
            else (filename, source)) assets"

definition isText :: "string \<Rightarrow> bool" where
  "isText name = (endsWith name ''.js'' \<or> endsWith name ''.css'' \<or> endsWith name ''.html'')"

definition emit_hook :: "(string \<times> content) list \<Rightarrow> (string \<times> content) list" where
  "emit_hook assets =
     new_Map (map (\<lambda>(name, source).
                     (name, if isText name then Text (toString source) else source)) assets)"

section \<open>\<^verbatim>\<open>getManifestJSON\<close>\<close>

text \<open>
  \<^verbatim>\<open>Array.prototype.sort\<close> is stable; with a consistent comparator every stable sort
  returns the same array, here insertion from the right.
\<close>

fun sort_insert :: "('a \<Rightarrow> 'a \<Rightarrow> int) \<Rightarrow> 'a \<Rightarrow> 'a list \<Rightarrow> 'a list" where
  "sort_insert cmp x [] = [x]"
| "sort_insert cmp x (y # ys) =
     (if cmp x y \<le> 0 then x # y # ys else y # sort_insert cmp x ys)"

definition Array_sort :: "('a \<Rightarrow> 'a \<Rightarrow> int) \<Rightarrow> 'a list \<Rightarrow> 'a list" where
  "Array_sort cmp xs = foldr (sort_insert cmp) xs []"

text \<open>
  An object lists its own properties with the array indices first, in ascending numeric
  order, and the other string keys after them in the order of their creation.  An array
  index is the canonical decimal numeral of an integer below \<open>2\<^sup>3\<^sup>2 - 1\<close>.  An object is the
  list of its properties in that order.
\<close>

definition is_digit :: "char \<Rightarrow> bool" where
  "is_digit c = (48 \<le> (of_char c :: nat) \<and> (of_char c :: nat) \<le> 57)"

definition digits_value :: "string \<Rightarrow> nat" where
  "digits_value k = foldl (\<lambda>n c. 10 * n + (of_char c - 48)) 0 k"

definition array_index :: "string \<Rightarrow> nat option" where
  "array_index k =
     (if k \<noteq> [] \<and> list_all is_digit k \<and> (length k = 1 \<or> hd k \<noteq> CHR ''0'')
         \<and> digits_value k < 4294967295
      then Some (digits_value k) else None)"

fun ins_index :: "nat \<Rightarrow> string \<times> 'v \<Rightarrow> (string \<times> 'v) list \<Rightarrow> (string \<times> 'v) list" where
  "ins_index i e [] = [e]"
| "ins_index i e (p # ps) =
     (case array_index (fst p) of
        Some j \<Rightarrow> if j < i then p # ins_index i e ps else e # p # ps
      | None \<Rightarrow> e # p # ps)"

definition obj_define :: "(string \<times> 'v) list \<Rightarrow> string \<times> 'v \<Rightarrow> (string \<times> 'v) list" where
  "obj_define obj e =
     (if fst e \<in> fst ` set obj then AList.update (fst e) (snd e) obj
      else case array_index (fst e) of
             Some i \<Rightarrow> ins_index i e obj
           | None \<Rightarrow> obj @ [e])"

definition Object_fromEntries :: "(string \<times> 'v) list \<Rightarrow> (string \<times> 'v) list" where
  "Object_fromEntries es = foldl obj_define [] es"

text \<open>
  \<^verbatim>\<open>JSON.stringify(obj, null, indent)\<close> for an object whose values are strings.  A string
  is quoted with \<^verbatim>\<open>"\<close>, \<^verbatim>\<open>\\<close> and the control characters escaped.
\<close>

definition hex_digit :: "nat \<Rightarrow> char" where
  "hex_digit n = ''0123456789abcdef'' ! (n mod 16)"

definition json_escape :: "char \<Rightarrow> string" where
  "json_escape c =
     (let n = (of_char c :: nat) in
      if c = CHR 0x22 then [CHR 0x5C, CHR 0x22]
      else if c = CHR 0x5C then [CHR 0x5C, CHR 0x5C]
      else if n = 8 then [CHR 0x5C, CHR ''b'']
      else if n = 9 then [CHR 0x5C, CHR ''t'']
      else if n = 10 then [CHR 0x5C, CHR ''n'']
      else if n = 12 then [CHR 0x5C, CHR ''f'']
      else if n = 13 then [CHR 0x5C, CHR ''r'']
      else if n < 32 then [CHR 0x5C, CHR ''u'', CHR ''0'', CHR ''0'', hex_digit (n div 16), hex_digit n]
      else [c])"

definition JSON_quote :: "string \<Rightarrow> string" where
  "JSON_quote s = CHR 0x22 # concat (map json_escape s) @ [CHR 0x22]"

fun join :: "string \<Rightarrow> string list \<Rightarrow> string" where
  "join sep [] = []"
| "join sep [x] = x"
| "join sep (x # y # ys) = x @ sep @ join sep (y # ys)"

definition JSON_stringify :: "(string \<times> string) list \<Rightarrow> nat option \<Rightarrow> string" where
  "JSON_stringify obj indent =
     (let gap = (case indent of None \<Rightarrow> [] | Some n \<Rightarrow> replicate (min n 10) CHR '' '') in
      if obj = [] then ''{}''
      else if gap = [] then
        ''{'' @ join '','' (map (\<lambda>(k, v). JSON_quote k @ '':'' @ JSON_quote v) obj) @ ''}''
      else
        ''{'' @ [CHR 0x0A] @ gap
          @ join ('','' @ [CHR 0x0A] @ gap)
              (map (\<lambda>(k, v). JSON_quote k @ '': '' @ JSON_quote v) obj)
          @ [CHR 0x0A] @ ''}'')"

definition getManifestJSON :: "collaborators \<Rightarrow> bool \<Rightarrow> (string \<times> string) list \<Rightarrow> string" where
  "getManifestJSON P format urlMap =
     JSON_stringify
       (Object_fromEntries (Array_sort (\<lambda>a b. localeCompare P (fst a) (fst b)) urlMap))
       (if format then Some 2 else None)"

section \<open>The \<^verbatim>\<open>afterEmit\<close> hook: classification\<close>

text \<open>
  \<^verbatim>\<open>stats.entrypoints\<close> (each entry point with its optional \<^verbatim>\<open>assets\<close>, in the order of
  \<^verbatim>\<open>Object.keys\<close>) and \<^verbatim>\<open>stats.assets\<close>; either may be undefined.  Only the names of the
  assets are read.
\<close>

record stats =
  entrypoints :: "(string \<times> string list option) list option"
  assets :: "string list option"

record name_sets =
  epNames :: "string list"
  styleNames :: "string list"
  htmlNames :: "string list"
  resourceNames :: "string list"

definition collect_epNames :: "stats \<Rightarrow> string list" where
  "collect_epNames st =
     foldl (\<lambda>eps (key, as).
              case as of None \<Rightarrow> eps | Some names \<Rightarrow> foldl (\<lambda>s name. Set_add name s) eps names)
       [] (case entrypoints st of None \<Rightarrow> [] | Some es \<Rightarrow> es)"

definition classify_asset :: "name_sets \<Rightarrow> string \<Rightarrow> name_sets" where
  "classify_asset s name =
     (if name \<in> set (epNames s) then s
      else if endsWith name ''.css'' then s\<lparr>styleNames := Set_add name (styleNames s)\<rparr>
      else if endsWith name ''.html'' then s\<lparr>htmlNames := Set_add name (htmlNames s)\<rparr>
      else s\<lparr>resourceNames := Set_add name (resourceNames s)\<rparr>)"

definition classification :: "stats \<Rightarrow> name_sets" where
  "classification st =
     foldl classify_asset
       \<lparr>epNames = collect_epNames st, styleNames = [], htmlNames = [], resourceNames = []\<rparr>
       (filter (\<lambda>name. \<not> endsWith name ''.map'')
          (case assets st of None \<Rightarrow> [] | Some names \<Rightarrow> names))"

section \<open>The \<^verbatim>\<open>afterEmit\<close> hook: \<^verbatim>\<open>uploadFile\<close> as a resumable task\<close>

text \<open>
  The state the hook works on: its two maps, the files of the output directory (by name,
  relative to \<^verbatim>\<open>stats.outputPath\<close>), and two logs that record what the collaborators were
  called with: every \<^verbatim>\<open>uploadContent\<close> call, and for every \<^verbatim>\<open>injectAssetManifest\<close>
  call the entry name and the manifest string it was given.
\<close>

record upload_call =
  file_name :: string
  content :: content
  ext :: string

record world =
  urlMap :: "(string \<times> string) list"
  urlCacheMap :: "(string \<times> jsval) list"
  files :: "string \<Rightarrow> content option"
  uploadCalls :: "upload_call list"
  injectCalls :: "(string \<times> string) list"

text \<open>
  JavaScript runs one task at a time, up to its next \<^verbatim>\<open>await\<close>.  A call of the async
  function \<^verbatim>\<open>uploadFile\<close> is therefore a task that is suspended at one of its three
  \<^verbatim>\<open>await\<close>s, or has settled; \<^verbatim>\<open>AwaitWrite\<close> is a bare \<^verbatim>\<open>overwrite(name, content)\<close>
  promise (document phase, manifest file).  The operation a task waits for (\<^verbatim>\<open>fs.writeFile\<close>,
  \<^verbatim>\<open>uploadContent\<close>, \<^verbatim>\<open>fs.unlink\<close>) has been started when the task suspends; it completes
  with an outcome that the environment chooses.
\<close>

datatype task =
    AwaitOverwrite content
  | AwaitUpload content
  | AwaitUnlink
  | AwaitWrite content
  | Fulfilled
  | Rejected exn

datatype outcome = Resolve jsval | Reject exn

datatype event = Settle string outcome

fun string_of :: "jsval \<Rightarrow> string" where
  "string_of (JStr s) = s"
| "string_of _ = []"

definition keep_local :: "options \<Rightarrow> bool" where
  "keep_local opts = (case keepLocalFiles opts of None \<Rightarrow> True | Some b \<Rightarrow> b)"

text \<open>
  Lines 150 to 156: \<^verbatim>\<open>if (url && typeof url === 'string') { urlMap.set; urlCacheMap.set;
  if (!keepLocalFiles) await unlink(name) }\<close>.
\<close>

definition uploadFile_record ::
  "collaborators \<Rightarrow> options \<Rightarrow> world \<Rightarrow> string \<Rightarrow> content \<Rightarrow> jsval \<Rightarrow> world \<times> task" where
  "uploadFile_record P opts w name c url =
     (if truthy url \<and> typeof_string url then
        (w\<lparr>urlMap := Map_set name (string_of url) (urlMap w),
           urlCacheMap := Map_set (md5 P c) url (urlCacheMap w)\<rparr>,
         if \<not> keep_local opts then AwaitUnlink else Fulfilled)
      else (w, Fulfilled))"

text \<open>
  Lines 142 to 149: \<^verbatim>\<open>cacheUrl || (await uploadContent(...))\<close>.  On a truthy cached value
  there is no \<^verbatim>\<open>await\<close> and the task runs on; otherwise \<^verbatim>\<open>uploadContent\<close> is called and
  the task suspends.
\<close>

definition uploadFile_lookup ::
  "collaborators \<Rightarrow> options \<Rightarrow> world \<Rightarrow> string \<Rightarrow> content \<Rightarrow> world \<times> task" where
  "uploadFile_lookup P opts w name c =
     (let cacheUrl = Map_get (urlCacheMap w) (md5 P c) in
      if truthy cacheUrl then uploadFile_record P opts w name c cacheUrl
      else (w\<lparr>uploadCalls := uploadCalls w @ [\<lparr>file_name = name, content = c, ext = extname P name\<rparr>]\<rparr>,
            AwaitUpload c))"

definition uploadFile ::
  "collaborators \<Rightarrow> options \<Rightarrow> world \<Rightarrow> string \<Rightarrow> content \<Rightarrow> bool \<Rightarrow> world \<times> task" where
  "uploadFile P opts w name c shouldOverwrite =
     (if shouldOverwrite then (w, AwaitOverwrite c) else uploadFile_lookup P opts w name c)"

text \<open>
  A suspended task resumes when its operation completes.  A completed \<^verbatim>\<open>fs.writeFile\<close> has
  written the file, a completed \<^verbatim>\<open>fs.unlink\<close> has removed it; an error rejects the task
  (nothing in \<^verbatim>\<open>uploadFile\<close> catches).
\<close>

fun resume ::
  "collaborators \<Rightarrow> options \<Rightarrow> world \<Rightarrow> string \<Rightarrow> task \<Rightarrow> outcome \<Rightarrow> world \<times> task" where
  "resume P opts w name (AwaitOverwrite c) (Resolve _) =
     uploadFile_lookup P opts (w\<lparr>files := (files w)(name \<mapsto> c)\<rparr>) name c"
| "resume P opts w name (AwaitUpload c) (Resolve url) = uploadFile_record P opts w name c url"
| "resume P opts w name AwaitUnlink (Resolve _) = (w\<lparr>files := (files w)(name := None)\<rparr>, Fulfilled)"
| "resume P opts w name (AwaitWrite c) (Resolve _) = (w\<lparr>files := (files w)(name \<mapsto> c)\<rparr>, Fulfilled)"
| "resume P opts w name Fulfilled _ = (w, Fulfilled)"
| "resume P opts w name (Rejected e) _ = (w, Rejected e)"
| "resume P opts w name _ (Reject e) = (w, Rejected e)"

fun pending :: "task \<Rightarrow> bool" where
  "pending Fulfilled = False"
| "pending (Rejected _) = False"
| "pending _ = True"

text \<open>
  The tasks of one \<^verbatim>\<open>Promise.all\<close>, by asset name (the names of a phase come from a
  \<^verbatim>\<open>Set\<close>).  An event settles the pending operation of the task of that name; an event
  for no pending task changes nothing.
\<close>

fun deliver ::
  "collaborators \<Rightarrow> options \<Rightarrow> world \<Rightarrow> (string \<times> task) list \<Rightarrow> event
     \<Rightarrow> world \<times> (string \<times> task) list" where
  "deliver P opts w [] ev = (w, [])"
| "deliver P opts w ((n, t) # ts) (Settle m out) =
     (if n = m \<and> pending t
      then (let (w', t') = resume P opts w n t out in (w', (n, t') # ts))
      else (let (w', ts') = deliver P opts w ts (Settle m out) in (w', (n, t) # ts')))"

fun first_rejected :: "(string \<times> task) list \<Rightarrow> exn option" where
  "first_rejected [] = None"
| "first_rejected ((n, Rejected e) # ts) = Some e"
| "first_rejected ((n, t) # ts) = first_rejected ts"

definition all_fulfilled :: "(string \<times> task) list \<Rightarrow> bool" where
  "all_fulfilled ts = list_all (\<lambda>(n, t). t = Fulfilled) ts"

text \<open>
  \<^verbatim>\<open>await Promise.all(tasks)\<close>: it rejects with the first rejection, and then the hook
  is over although the other tasks of the phase run on; it fulfils when every task has; it
  stays pending when the events end before that.  \<open>r\<close> is the rejection \<^verbatim>\<open>Promise.all\<close>
  has already seen.
\<close>

datatype status = StillPending | Settled | Failed exn

fun run_tasks ::
  "collaborators \<Rightarrow> options \<Rightarrow> exn option \<Rightarrow> world \<Rightarrow> (string \<times> task) list \<Rightarrow> event list
     \<Rightarrow> exn option \<times> world \<times> (string \<times> task) list \<times> event list" where
  "run_tasks P opts r w ts [] = (r, w, ts, [])"
| "run_tasks P opts r w ts (ev # evs) =
     (if r = None \<and> all_fulfilled ts then (r, w, ts, ev # evs)
      else (let (w', ts') = deliver P opts w ts ev;
                r' = (case r of None \<Rightarrow> first_rejected ts' | Some e \<Rightarrow> Some e)
            in run_tasks P opts r' w' ts' evs))"

definition await_all ::
  "collaborators \<Rightarrow> options \<Rightarrow> world \<times> (string \<times> task) list \<Rightarrow> event list
     \<Rightarrow> status \<times> world \<times> event list" where
  "await_all P opts wts evs =
     (let (r, w', ts', evs') = run_tasks P opts (first_rejected (snd wts)) (fst wts) (snd wts) evs in
      case r of
        Some e \<Rightarrow> (Failed e, w', evs')
      | None \<Rightarrow> if all_fulfilled ts' then (Settled, w', evs') else (StillPending, w', evs'))"

text \<open>
  \<^verbatim>\<open>names.map((name) => f(name))\<close>: the callback runs for every name in order, each call
  up to its first \<^verbatim>\<open>await\<close>, before any task resumes.
\<close>

fun start_all ::
  "(world \<Rightarrow> string \<Rightarrow> world \<times> task) \<Rightarrow> world \<Rightarrow> string list \<Rightarrow> world \<times> (string \<times> task) list" where
  "start_all f w [] = (w, [])"
| "start_all f w (n # ns) =
     (let (w1, t) = f w n; (w2, ts) = start_all f w1 ns in (w2, (n, t) # ts))"

section \<open>The \<^verbatim>\<open>afterEmit\<close> hook: the phases\<close>

text \<open>
  Lines 181 to 185.  \<^verbatim>\<open>assetMap.get(name)!\<close> is undefined for a name \<^verbatim>\<open>assetMap\<close> does not
  have, and \<^verbatim>\<open>md5(undefined)\<close> throws.
\<close>

definition start_resource ::
  "collaborators \<Rightarrow> options \<Rightarrow> (string \<times> content) list \<Rightarrow> world \<Rightarrow> string \<Rightarrow> world \<times> task" where
  "start_resource P opts assetMap w name =
     (case map_of assetMap name of
        None \<Rightarrow> (w, Rejected TypeError)
      | Some c \<Rightarrow> uploadFile P opts w name c False)"

text \<open>Lines 187 to 195.\<close>

definition start_style ::
  "collaborators \<Rightarrow> options \<Rightarrow> (string \<times> content) list \<Rightarrow> world \<Rightarrow> string \<Rightarrow> world \<times> task" where
  "start_style P opts assetMap w name =
     uploadFile P opts w name (Text (replaceCSSUrls P name (map_of assetMap name) (urlMap w))) True"

text \<open>Lines 197 to 208.\<close>

definition start_entry ::
  "collaborators \<Rightarrow> options \<Rightarrow> (string \<times> content) list \<Rightarrow> world \<Rightarrow> string \<Rightarrow> world \<times> task" where
  "start_entry P opts assetMap w name =
     (let manifest = getManifestJSON P False (urlMap w);
          w' = w\<lparr>injectCalls := injectCalls w @ [(name, manifest)]\<rparr>
      in uploadFile P opts w' name (Text (injectAssetManifest P (map_of assetMap name) manifest)) True)"

text \<open>Lines 210 to 221.\<close>

definition start_document ::
  "collaborators \<Rightarrow> (string \<times> content) list \<Rightarrow> world \<Rightarrow> string \<Rightarrow> world \<times> task" where
  "start_document P assetMap w name =
     (w, AwaitWrite (Text (interpolateHTMLAssets P (map_of assetMap name) (urlMap w)
                             (getManifestJSON P False (urlMap w)))))"

text \<open>Lines 223 to 228.\<close>

definition start_manifest :: "collaborators \<Rightarrow> options \<Rightarrow> world \<Rightarrow> world \<times> (string \<times> task) list" where
  "start_manifest P opts w =
     (case manifestFilename opts of
        ManifestUnset \<Rightarrow> (w, [])
      | ManifestFlag b \<Rightarrow>
          if b then (w, [(''manifest.json'', AwaitWrite (Text (getManifestJSON P True (urlMap w))))])
          else (w, [])
      | ManifestName f \<Rightarrow>
          if f \<noteq> [] then (w, [(f, AwaitWrite (Text (getManifestJSON P True (urlMap w))))])
          else (w, []))"

text \<open>
  Each \<^verbatim>\<open>await\<close> of the hook: the next phase starts once the one before has fulfilled,
  from the state it has left and with the events that remain.
\<close>

definition and_then ::
  "status \<times> world \<times> event list \<Rightarrow> (world \<Rightarrow> event list \<Rightarrow> status \<times> world \<times> event list)
     \<Rightarrow> status \<times> world \<times> event list" where
  "and_then r f = (case r of (s, w, evs) \<Rightarrow> if s = Settled then f w evs else (s, w, evs))"

definition resource_phase ::
  "collaborators \<Rightarrow> options \<Rightarrow> (string \<times> content) list \<Rightarrow> name_sets \<Rightarrow> world \<Rightarrow> event list
     \<Rightarrow> status \<times> world \<times> event list" where
  "resource_phase P opts assetMap s w evs =
     await_all P opts (start_all (start_resource P opts assetMap) w (resourceNames s)) evs"

definition style_phase ::
  "collaborators \<Rightarrow> options \<Rightarrow> (string \<times> content) list \<Rightarrow> name_sets \<Rightarrow> world \<Rightarrow> event list
     \<Rightarrow> status \<times> world \<times> event list" where
  "style_phase P opts assetMap s w evs =
     await_all P opts (start_all (start_style P opts assetMap) w (styleNames s)) evs"

definition entry_phase ::
  "collaborators \<Rightarrow> options \<Rightarrow> (string \<times> content) list \<Rightarrow> name_sets \<Rightarrow> world \<Rightarrow> event list
     \<Rightarrow> status \<times> world \<times> event list" where
  "entry_phase P opts assetMap s w evs =
     await_all P opts (start_all (start_entry P opts assetMap) w (epNames s)) evs"

definition document_phase ::
  "collaborators \<Rightarrow> options \<Rightarrow> (string \<times> content) list \<Rightarrow> name_sets \<Rightarrow> world \<Rightarrow> event list
     \<Rightarrow> status \<times> world \<times> event list" where
  "document_phase P opts assetMap s w evs =
     await_all P opts (start_all (start_document P assetMap) w (htmlNames s)) evs"

definition manifest_phase ::
  "collaborators \<Rightarrow> options \<Rightarrow> world \<Rightarrow> event list \<Rightarrow> status \<times> world \<times> event list" where
  "manifest_phase P opts w evs = await_all P opts (start_manifest P opts w) evs"

definition through_style ::
  "collaborators \<Rightarrow> options \<Rightarrow> (string \<times> content) list \<Rightarrow> name_sets \<Rightarrow> world \<Rightarrow> event list
     \<Rightarrow> status \<times> world \<times> event list" where
  "through_style P opts assetMap s w evs =
     and_then (resource_phase P opts assetMap s w evs) (style_phase P opts assetMap s)"

definition through_entry ::
  "collaborators \<Rightarrow> options \<Rightarrow> (string \<times> content) list \<Rightarrow> name_sets \<Rightarrow> world \<Rightarrow> event list
     \<Rightarrow> status \<times> world \<times> event list" where
  "through_entry P opts assetMap s w evs =
     and_then (through_style P opts assetMap s w evs) (entry_phase P opts assetMap s)"

definition afterEmit_hook ::
  "collaborators \<Rightarrow> options \<Rightarrow> (string \<times> content) list \<Rightarrow> stats \<Rightarrow> world \<Rightarrow> event list
     \<Rightarrow> status \<times> world \<times> event list" where
  "afterEmit_hook P opts assetMap st w evs =
     (let s = classification st in
      and_then
        (and_then (through_entry P opts assetMap s (w\<lparr>urlMap := []\<rparr>) evs)
           (document_phase P opts assetMap s))
        (manifest_phase P opts))"

section \<open>The \<^verbatim>\<open>done\<close> hook and the build as the host drives it\<close>

text \<open>
  \<^verbatim>\<open>done\<close> writes \<^verbatim>\<open>JSON.stringify(Object.fromEntries(urlCacheMap.entries()))\<close> to the
  cache file; the object that is serialised stands for the file.
\<close>

definition done_hook :: "world \<Rightarrow> (string \<times> jsval) list" where
  "done_hook w = Object_fromEntries (urlCacheMap w)"

text \<open>
  What the host (webpack's \<^verbatim>\<open>Compiler\<close>) supplies: the environment and the configuration,
  the cache file and the output directory as they are before the build, the assets at the
  \<^verbatim>\<open>PROCESS_ASSETS_STAGE_OPTIMIZE\<close> stage, and the rest of its own pipeline, which turns
  those assets into the emitted assets and their \<^verbatim>\<open>stats\<close>.
\<close>

record compiler =
  NODE_ENV :: "string option"
  mode :: "string option"
  cacheFile :: cache_file
  publicPath :: jsval
  compiled :: "(string \<times> content) list"
  seal :: "(string \<times> content) list \<Rightarrow> (string \<times> content) list \<times> stats"
  disk :: "string \<Rightarrow> content option"

datatype build_outcome = Inactive | Aborted exn | Ran status

definition write_assets ::
  "(string \<Rightarrow> content option) \<Rightarrow> (string \<times> content) list \<Rightarrow> (string \<Rightarrow> content option)" where
  "write_assets d emitted = foldl (\<lambda>f (name, source). f(name \<mapsto> source)) d emitted"

text \<open>
  The host calls the hooks in the order \<^verbatim>\<open>initialize\<close>, \<^verbatim>\<open>thisCompilation\<close>,
  \<^verbatim>\<open>processAssets\<close>, \<^verbatim>\<open>emit\<close>, \<^verbatim>\<open>afterEmit\<close>, \<^verbatim>\<open>done\<close>; \<^verbatim>\<open>apply\<close> taps none of them
  outside production mode, and an exception in a hook ends the build.  The result is the
  outcome, the state left behind and the cache object that \<^verbatim>\<open>done\<close> has persisted, if it
  ran.
\<close>

definition build ::
  "collaborators \<Rightarrow> options \<Rightarrow> compiler \<Rightarrow> event list
     \<Rightarrow> build_outcome \<times> world \<times> (string \<times> jsval) list option" where
  "build P opts C evs =
     (let w0 = \<lparr>urlMap = [], urlCacheMap = [], files = disk C, uploadCalls = [], injectCalls = []\<rparr> in
      if \<not> production (NODE_ENV C) (mode C) then
        (Inactive, w0\<lparr>files := write_assets (disk C) (fst (seal C (compiled C)))\<rparr>, None)
      else
        case initialize_hook (cacheFile C) of
          Inl e \<Rightarrow> (Aborted e, w0, None)
        | Inr cache \<Rightarrow>
            (case thisCompilation_hook (publicPath C) of
               Inl e \<Rightarrow> (Aborted e, w0\<lparr>urlCacheMap := cache\<rparr>, None)
             | Inr _ \<Rightarrow>
                 (let (emitted, st) = seal C (processAssets_hook P (compiled C));
                      w1 = w0\<lparr>urlCacheMap := cache, files := write_assets (disk C) emitted\<rparr>;
                      (s, w2, rest) = afterEmit_hook P opts (emit_hook emitted) st w1 evs
                  in (Ran s, w2, if s = Settled then Some (done_hook w2) else None))))"

section \<open>Sample collaborators for the concrete runs\<close>

text \<open>
  Stand-ins for the imported functions, to run the model on concrete inputs: the digest is
  the content itself (so equal digests mean equal bytes), the collation is the order of
  the code units, and the rewriters of \<^verbatim>\<open>./utils\<close> append what they are given.
\<close>

fun codeUnitCompare :: "string \<Rightarrow> string \<Rightarrow> int" where
  "codeUnitCompare [] [] = 0"
| "codeUnitCompare [] (y # ys) = - 1"
| "codeUnitCompare (x # xs) [] = 1"
| "codeUnitCompare (x # xs) (y # ys) =
     (if (of_char x :: nat) < of_char y then - 1
      else if (of_char y :: nat) < of_char x then 1
      else codeUnitCompare xs ys)"

definition text_of :: "content option \<Rightarrow> string" where
  "text_of c = (case c of None \<Rightarrow> ''undefined'' | Some x \<Rightarrow> toString x)"

definition sample :: collaborators where
  "sample =
     \<lparr>md5 = toString,
      extname = (\<lambda>name. if CHR ''.'' \<in> set name
                         then CHR ''.'' # rev (takeWhile (\<lambda>c. c \<noteq> CHR ''.'') (rev name)) else []),
      localeCompare = codeUnitCompare,
      replacePublicPath = (\<lambda>s. s),
      replaceCSSUrls = (\<lambda>name c m. text_of c),
      injectAssetManifest = (\<lambda>c manifest. text_of c @ manifest),
      interpolateHTMLAssets = (\<lambda>c m manifest. text_of c @ manifest)\<rparr>"

definition sample_compiler :: compiler where
  "sample_compiler =
     \<lparr>NODE_ENV = Some ''development'',
      mode = Some ''production'',
      cacheFile = Missing,
      publicPath = JStr ''/static/'',
      compiled = [(''main.js'', Text ''code''), (''logo.png'', Buffer ''X'')],
      seal = (\<lambda>as. (as, \<lparr>entrypoints = Some [(''main'', Some [''main.js''])],
                             assets = Some (map fst as)\<rparr>)),
      disk = Map.empty\<rparr>"

text \<open>
  A build with one entry point, a stylesheet, a document, a source map and two resources
  of identical bytes; the events complete the operations of each phase in turn, with
  \<^verbatim>\<open>uploadContent\<close> resolving to a URL for the resources and the entry and to null for
  the stylesheet.
\<close>

definition scenario_stats :: stats where
  "scenario_stats =
     \<lparr>entrypoints = Some [(''main'', Some [''main.js''])],
      assets = Some [''main.js'', ''main.js.map'', ''app.css'', ''index.html'', ''logo.png'', ''copy.png'']\<rparr>"

definition scenario_assetMap :: "(string \<times> content) list" where
  "scenario_assetMap =
     [(''main.js'', Text ''JS''), (''main.js.map'', Text ''MAP''), (''app.css'', Text ''CSS''),
      (''index.html'', Text ''HTML''), (''logo.png'', Buffer ''X''), (''copy.png'', Buffer ''X'')]"

definition scenario_world :: "(string \<times> jsval) list \<Rightarrow> world" where
  "scenario_world cache =
     \<lparr>urlMap = [], urlCacheMap = cache, files = map_of scenario_assetMap,
      uploadCalls = [], injectCalls = []\<rparr>"

definition scenario_options :: options where
  "scenario_options = \<lparr>keepLocalFiles = Some False, manifestFilename = ManifestFlag True\<rparr>"

definition scenario_events :: "event list" where
  "scenario_events =
     [Settle ''logo.png'' (Resolve (JStr ''https://cdn/1'')),
      Settle ''copy.png'' (Resolve (JStr ''https://cdn/2'')),
      Settle ''logo.png'' (Resolve JNull),
      Settle ''copy.png'' (Resolve JNull),
      Settle ''app.css'' (Resolve JNull),
      Settle ''app.css'' (Resolve JNull),
      Settle ''main.js'' (Resolve JNull),
      Settle ''main.js'' (Resolve (JStr ''https://cdn/3'')),
      Settle ''main.js'' (Resolve JNull),
      Settle ''index.html'' (Resolve JNull),
      Settle ''manifest.json'' (Resolve JNull)]"

definition scenario_run :: "(string \<times> jsval) list \<Rightarrow> event list \<Rightarrow> status \<times> world \<times> event list" where
  "scenario_run cache evs =
     afterEmit_hook sample scenario_options scenario_assetMap scenario_stats
       (scenario_world cache) evs"

section \<open>Notions used to state the properties\<close>

text \<open>The assets that the classification loop visits: those whose name does not end in \<^verbatim>\<open>.map\<close>.\<close>

definition published_assets :: "stats \<Rightarrow> string set" where
  "published_assets st =
     {n \<in> set (case assets st of None \<Rightarrow> [] | Some names \<Rightarrow> names). \<not> endsWith n ''.map''}"

text \<open>
  What a run of tasks can do to the state, for a set \<open>N\<close> of names: the upload log only
  grows, by calls for names of \<open>N\<close> whose fingerprint had no truthy cache value at the
  start; the URL map gains keys of \<open>N\<close> only; a fingerprint with a truthy cache value
  keeps one.
\<close>

definition progress :: "collaborators \<Rightarrow> string set \<Rightarrow> world \<Rightarrow> world \<Rightarrow> bool" where
  "progress P N w w' =
     ((\<exists>new. uploadCalls w' = uploadCalls w @ new
         \<and> (\<forall>u \<in> set new. file_name u \<in> N
               \<and> \<not> truthy (Map_get (urlCacheMap w) (md5 P (content u)))))
      \<and> dom (map_of (urlMap w')) \<subseteq> dom (map_of (urlMap w)) \<union> N
      \<and> (\<forall>f. truthy (Map_get (urlCacheMap w) f) \<longrightarrow> truthy (Map_get (urlCacheMap w') f)))"

text \<open>
  Tasks that are bare writes, and what they can do to the state between \<open>w\<close> and \<open>w'\<close>:
  nothing but write files named in \<open>N\<close>, and no file disappears.
\<close>

fun writes_only :: "task \<Rightarrow> bool" where
  "writes_only (AwaitWrite _) = True"
| "writes_only Fulfilled = True"
| "writes_only (Rejected _) = True"
| "writes_only _ = False"

definition overwritten :: "string set \<Rightarrow> world \<Rightarrow> world \<Rightarrow> bool" where
  "overwritten N w w' =
     (urlMap w' = urlMap w \<and> urlCacheMap w' = urlCacheMap w \<and> uploadCalls w' = uploadCalls w
      \<and> injectCalls w' = injectCalls w
      \<and> (\<forall>n. n \<notin> N \<longrightarrow> files w' n = files w n)
      \<and> (\<forall>n. files w n \<noteq> None \<longrightarrow> files w' n \<noteq> None))"

text \<open>
  A comparator is consistent on a set of keys when it is a total order there: it answers
  zero for equal keys only, swaps its sign with its arguments, and is transitive.
\<close>

definition consistent_on :: "(string \<Rightarrow> string \<Rightarrow> int) \<Rightarrow> string set \<Rightarrow> bool" where
  "consistent_on cmp K =
     ((\<forall>a \<in> K. \<forall>b \<in> K. (cmp a b = 0) = (a = b) \<and> (cmp a b < 0) = (0 < cmp b a))
      \<and> (\<forall>a \<in> K. \<forall>b \<in> K. \<forall>c \<in> K. cmp a b \<le> 0 \<and> cmp b c \<le> 0 \<longrightarrow> cmp a c \<le> 0))"

text \<open>
  The order of the keys in a serialised manifest: array indices first, by their numeric
  value, then the other keys as the comparator orders them.
\<close>

definition key_before :: "(string \<Rightarrow> string \<Rightarrow> int) \<Rightarrow> string \<Rightarrow> string \<Rightarrow> bool" where
  "key_before cmp a b =
     (case (array_index a, array_index b) of
        (Some i, Some j) \<Rightarrow> i < j
      | (Some i, None) \<Rightarrow> True
      | (None, Some j) \<Rightarrow> False
      | (None, None) \<Rightarrow> cmp a b < 0)"

text \<open>The object that \<^verbatim>\<open>getManifestJSON\<close> hands to \<^verbatim>\<open>JSON.stringify\<close>.\<close>

definition serialised_entries :: "collaborators \<Rightarrow> (string \<times> string) list \<Rightarrow> (string \<times> string) list" where
  "serialised_entries P m =
     Object_fromEntries (Array_sort (\<lambda>a b. localeCompare P (fst a) (fst b)) m)"

text \<open>
  A JSON text without its insignificant whitespace: the blanks, tabs and line breaks
  outside string literals are dropped (\<open>s\<close>: inside a string literal, \<open>e\<close>: after a
  backslash).
\<close>

fun minify :: "bool \<Rightarrow> bool \<Rightarrow> string \<Rightarrow> string" where
  "minify s e [] = []"
| "minify False e (c # cs) =
     (if c = CHR '' '' \<or> c = CHR 0x0A \<or> c = CHR 0x09 \<or> c = CHR 0x0D then minify False False cs
      else if c = CHR 0x22 then c # minify True False cs
      else c # minify False False cs)"
| "minify True True (c # cs) = c # minify True False cs"
| "minify True False (c # cs) =
     (if c = CHR 0x5C then c # minify True True cs
      else if c = CHR 0x22 then c # minify False False cs
      else c # minify True False cs)"

definition JSON_minify :: "string \<Rightarrow> string" where
  "JSON_minify s = minify False False s"





section \<open>Activation\<close>

text \<open>
  Claim C9.  \<^verbatim>\<open>NODE_ENV\<close>, when set to a non-empty value, decides alone: the guard passes
  exactly when that value is \<^verbatim>\<open>production\<close>, whatever the compiler's mode; when
  \<^verbatim>\<open>NODE_ENV\<close> is unset or empty the mode decides.  When the guard fails the plugin taps no
  hook: the build is the host's alone (the assets are emitted as the host produced them, no
  upload, no URL, no cache written).
\<close>

theorem production_guard:
  "(env \<noteq> [] \<longrightarrow> production (Some env) m = (env = ''production''))
   \<and> production None m = (m = Some ''production'')
   \<and> production (Some []) m = (m = Some ''production'')
   \<and> (\<not> production (NODE_ENV C) (mode C) \<longrightarrow>
        build P opts C evs =
          (Inactive,
           \<lparr>urlMap = [], urlCacheMap = [],
            files = write_assets (disk C) (fst (seal C (compiled C))),
            uploadCalls = [], injectCalls = []\<rparr>,
           None))"
  by (simp add: production_def js_or_def build_def)

text \<open>
  The guard at \<^verbatim>\<open>NODE_ENV=development\<close> with the compiler in production mode: the build is
  inactive.
\<close>

theorem production_guard_witness:
  "''development'' \<noteq> []
   \<and> \<not> production (Some ''development'') (Some ''production'')
   \<and> \<not> production (NODE_ENV sample_compiler) (mode sample_compiler)
   \<and> fst (build sample \<lparr>keepLocalFiles = None, manifestFilename = ManifestUnset\<rparr>
             sample_compiler [Settle ''logo.png'' (Resolve (JStr ''u''))]) = Inactive
   \<and> uploadCalls (fst (snd (build sample \<lparr>keepLocalFiles = None, manifestFilename = ManifestUnset\<rparr>
             sample_compiler [Settle ''logo.png'' (Resolve (JStr ''u''))]))) = []"
  using production_guard [of "''development''" "Some ''production''" sample_compiler sample
      "\<lparr>keepLocalFiles = None, manifestFilename = ManifestUnset\<rparr>"
      "[Settle ''logo.png'' (Resolve (JStr ''u''))]"]
  by (simp add: sample_compiler_def)

section \<open>Configuration check\<close>

text \<open>
  Claim C8.  With the plugin active and the cache loaded, a truthy \<^verbatim>\<open>publicPath\<close> (a
  non-empty string, or a function) makes the \<^verbatim>\<open>thisCompilation\<close> hook throw, and the build
  ends there: nothing has been rewritten, emitted, classified or uploaded.
\<close>

theorem publicPath_aborts:
  "(truthy pp \<longrightarrow>
      thisCompilation_hook pp = Inl (Thrown ''Error: You should set publicPath to \"\"''))
   \<and> (production (NODE_ENV C) (mode C) \<and> initialize_hook (cacheFile C) = Inr cache
        \<and> truthy (publicPath C) \<longrightarrow>
        build P opts C evs =
          (Aborted (Thrown ''Error: You should set publicPath to \"\"''),
           \<lparr>urlMap = [], urlCacheMap = cache, files = disk C, uploadCalls = [], injectCalls = []\<rparr>,
           None))"
  by (simp add: thisCompilation_hook_def build_def)

text \<open>A production build with \<^verbatim>\<open>publicPath: "/static/"\<close> and no cache file.\<close>

theorem publicPath_aborts_witness:
  "truthy (JStr ''/static/'')
   \<and> production (NODE_ENV (sample_compiler\<lparr>NODE_ENV := None\<rparr>)) (mode (sample_compiler\<lparr>NODE_ENV := None\<rparr>))
   \<and> initialize_hook (cacheFile (sample_compiler\<lparr>NODE_ENV := None\<rparr>)) = Inr []
   \<and> truthy (publicPath (sample_compiler\<lparr>NODE_ENV := None\<rparr>))
   \<and> build sample \<lparr>keepLocalFiles = None, manifestFilename = ManifestUnset\<rparr>
        (sample_compiler\<lparr>NODE_ENV := None\<rparr>) [Settle ''logo.png'' (Resolve (JStr ''u''))] =
       (Aborted (Thrown ''Error: You should set publicPath to \"\"''),
        \<lparr>urlMap = [], urlCacheMap = [], files = Map.empty, uploadCalls = [], injectCalls = []\<rparr>,
        None)"
  using publicPath_aborts [of "JStr ''/static/''" "sample_compiler\<lparr>NODE_ENV := None\<rparr>" "[]" sample
      "\<lparr>keepLocalFiles = None, manifestFilename = ManifestUnset\<rparr>"
      "[Settle ''logo.png'' (Resolve (JStr ''u''))]"]
  by (simp add: sample_compiler_def production_def js_or_def)

section \<open>Loading the cache\<close>

text \<open>
  Claim C3, as stated, fails: a cache file that holds malformed JSON makes the hook throw
  the SyntaxError of \<^verbatim>\<open>JSON.parse\<close>; it does not yield the empty cache.
\<close>

theorem initialize_malformed_throws:
  "initialize_hook Malformed = Inl SyntaxError \<and> initialize_hook Malformed \<noteq> Inr []"
  by simp

text \<open>
  Claim C3, amended.  A missing cache file yields the empty cache.  A cache file that exists
  is read and parsed without any handler: malformed JSON throws, which ends an active build
  before anything else has happened; and the hook yields a cache only for a missing file
  or for a file that parses to a value with entries, whose entries it then holds.
\<close>

theorem initialize_loads:
  "initialize_hook Missing = Inr []
   \<and> initialize_hook Malformed = Inl SyntaxError
   \<and> (production (NODE_ENV C) (mode C) \<and> cacheFile C = Malformed \<longrightarrow>
        build P opts C evs =
          (Aborted SyntaxError,
           \<lparr>urlMap = [], urlCacheMap = [], files = disk C, uploadCalls = [], injectCalls = []\<rparr>,
           None))
   \<and> (initialize_hook f = Inr c \<longrightarrow>
        (f = Missing \<and> c = []) \<or> (\<exists>v es. f = Parsed v \<and> Object_entries v = Inr es \<and> c = new_Map es))"
  by (cases f) (auto simp: build_def split: sum.splits)

text \<open>
  A production build whose cache file is malformed, and the cache loaded from the file
  \<^verbatim>\<open>{"d41d": "https://cdn/logo.png"}\<close>.
\<close>

theorem initialize_loads_witness:
  "production (NODE_ENV (sample_compiler\<lparr>NODE_ENV := None, cacheFile := Malformed\<rparr>))
      (mode (sample_compiler\<lparr>NODE_ENV := None, cacheFile := Malformed\<rparr>))
   \<and> cacheFile (sample_compiler\<lparr>NODE_ENV := None, cacheFile := Malformed\<rparr>) = Malformed
   \<and> fst (build sample \<lparr>keepLocalFiles = None, manifestFilename = ManifestUnset\<rparr>
        (sample_compiler\<lparr>NODE_ENV := None, cacheFile := Malformed\<rparr>) []) = Aborted SyntaxError
   \<and> initialize_hook (Parsed (JObj [(''d41d'', JStr ''https://cdn/logo.png'')])) =
        Inr [(''d41d'', JStr ''https://cdn/logo.png'')]"
  using initialize_loads [of "sample_compiler\<lparr>NODE_ENV := None, cacheFile := Malformed\<rparr>" sample
      "\<lparr>keepLocalFiles = None, manifestFilename = ManifestUnset\<rparr>" "[]"
      "Parsed (JObj [(''d41d'', JStr ''https://cdn/logo.png'')])"
      "[(''d41d'', JStr ''https://cdn/logo.png'')]"]
  by (simp add: sample_compiler_def production_def js_or_def new_Map_def Map_set_def)

section \<open>Classification\<close>

lemma Set_add_set: "set (Set_add x xs) = insert x (set xs)"
  by (auto simp: Set_add_def)

lemma Set_add_distinct: "distinct xs \<Longrightarrow> distinct (Set_add x xs)"
  by (simp add: Set_add_def)

lemma classify_asset_epNames: "epNames (classify_asset s n) = epNames s"
  by (simp add: classify_asset_def)

lemma fold_classify_epNames: "epNames (foldl classify_asset s ns) = epNames s"
  by (induction ns arbitrary: s) (simp_all add: classify_asset_epNames)

lemma fold_classify_style:
  "set (styleNames (foldl classify_asset s ns)) =
     set (styleNames s) \<union> {n \<in> set ns. n \<notin> set (epNames s) \<and> endsWith n ''.css''}"
proof (induction ns arbitrary: s)
  case Nil
  then show ?case by simp
next
  case (Cons n ns)
  have "set (styleNames (classify_asset s n)) =
          set (styleNames s) \<union> {m \<in> {n}. m \<notin> set (epNames s) \<and> endsWith m ''.css''}"
    by (auto simp: classify_asset_def Set_add_set)
  with Cons.IH [of "classify_asset s n"] show ?case
    by (auto simp: classify_asset_epNames)
qed

lemma fold_classify_html:
  "set (htmlNames (foldl classify_asset s ns)) =
     set (htmlNames s) \<union>
       {n \<in> set ns. n \<notin> set (epNames s) \<and> \<not> endsWith n ''.css'' \<and> endsWith n ''.html''}"
proof (induction ns arbitrary: s)
  case Nil
  then show ?case by simp
next
  case (Cons n ns)
  have "set (htmlNames (classify_asset s n)) =
          set (htmlNames s) \<union>
            {m \<in> {n}. m \<notin> set (epNames s) \<and> \<not> endsWith m ''.css'' \<and> endsWith m ''.html''}"
    by (auto simp: classify_asset_def Set_add_set)
  with Cons.IH [of "classify_asset s n"] show ?case
    by (auto simp: classify_asset_epNames)
qed

lemma fold_classify_resource:
  "set (resourceNames (foldl classify_asset s ns)) =
     set (resourceNames s) \<union>
       {n \<in> set ns. n \<notin> set (epNames s) \<and> \<not> endsWith n ''.css'' \<and> \<not> endsWith n ''.html''}"
proof (induction ns arbitrary: s)
  case Nil
  then show ?case by simp
next
  case (Cons n ns)
  have "set (resourceNames (classify_asset s n)) =
          set (resourceNames s) \<union>
            {m \<in> {n}. m \<notin> set (epNames s) \<and> \<not> endsWith m ''.css'' \<and> \<not> endsWith m ''.html''}"
    by (auto simp: classify_asset_def Set_add_set)
  with Cons.IH [of "classify_asset s n"] show ?case
    by (auto simp: classify_asset_epNames)
qed

lemma set_fold_Set_add: "set (foldl (\<lambda>s name. Set_add name s) eps names) = set eps \<union> set names"
  by (induction names arbitrary: eps) (auto simp: Set_add_set)

lemma distinct_fold_Set_add:
  "distinct eps \<Longrightarrow> distinct (foldl (\<lambda>s name. Set_add name s) eps names)"
  by (induction names arbitrary: eps) (simp_all add: Set_add_distinct)

lemma fold_entrypoints:
  "set (foldl (\<lambda>eps (key, as).
                 case as of None \<Rightarrow> eps | Some names \<Rightarrow> foldl (\<lambda>s name. Set_add name s) eps names)
          acc es)
     = set acc \<union> {n. \<exists>key names. (key, Some names) \<in> set es \<and> n \<in> set names}"
proof (induction es arbitrary: acc)
  case Nil
  then show ?case by simp
next
  case (Cons e es)
  obtain key as where e: "e = (key, as)" by (cases e)
  show ?case
  proof (cases as)
    case None
    with e Cons.IH [of acc] show ?thesis by auto
  next
    case (Some names)
    with e Cons.IH [of "foldl (\<lambda>s name. Set_add name s) acc names"] show ?thesis
      by (auto simp: set_fold_Set_add)
  qed
qed

lemma distinct_fold_entrypoints:
  "distinct acc \<Longrightarrow>
   distinct (foldl (\<lambda>eps (key, as).
                 case as of None \<Rightarrow> eps | Some names \<Rightarrow> foldl (\<lambda>s name. Set_add name s) eps names)
          acc es)"
proof (induction es arbitrary: acc)
  case Nil
  then show ?case by simp
next
  case (Cons e es)
  obtain key as where e: "e = (key, as)" by (cases e)
  show ?case
  proof (cases as)
    case None
    with e Cons show ?thesis by simp
  next
    case (Some names)
    with e Cons.IH [of "foldl (\<lambda>s name. Set_add name s) acc names"] Cons.prems show ?thesis
      by (simp add: distinct_fold_Set_add)
  qed
qed

lemma set_collect_epNames:
  "set (collect_epNames st)
     = {n. \<exists>key names. (key, Some names) \<in> set (case entrypoints st of None \<Rightarrow> [] | Some es \<Rightarrow> es)
                        \<and> n \<in> set names}"
  by (simp add: collect_epNames_def fold_entrypoints)

lemma distinct_collect_epNames: "distinct (collect_epNames st)"
  by (simp add: collect_epNames_def distinct_fold_entrypoints)

lemma classification_epNames: "epNames (classification st) = collect_epNames st"
  by (simp add: classification_def fold_classify_epNames)

lemma classification_style:
  "set (styleNames (classification st)) =
     {n \<in> published_assets st. n \<notin> set (collect_epNames st) \<and> endsWith n ''.css''}"
  by (auto simp: classification_def fold_classify_style published_assets_def)

lemma classification_html:
  "set (htmlNames (classification st)) =
     {n \<in> published_assets st. n \<notin> set (collect_epNames st) \<and> \<not> endsWith n ''.css'' \<and> endsWith n ''.html''}"
  by (auto simp: classification_def fold_classify_html published_assets_def)

lemma classification_resource:
  "set (resourceNames (classification st)) =
     {n \<in> published_assets st. n \<notin> set (collect_epNames st) \<and> \<not> endsWith n ''.css'' \<and> \<not> endsWith n ''.html''}"
  by (auto simp: classification_def fold_classify_resource published_assets_def)

lemma classification_disjoint:
  "set (epNames (classification st)) \<inter> set (styleNames (classification st)) = {}"
  "set (epNames (classification st)) \<inter> set (htmlNames (classification st)) = {}"
  "set (epNames (classification st)) \<inter> set (resourceNames (classification st)) = {}"
  "set (styleNames (classification st)) \<inter> set (htmlNames (classification st)) = {}"
  "set (styleNames (classification st)) \<inter> set (resourceNames (classification st)) = {}"
  "set (htmlNames (classification st)) \<inter> set (resourceNames (classification st)) = {}"
  by (auto simp: classification_epNames classification_style classification_html
      classification_resource)

text \<open>
  Claim C4, as stated, fails: the \<^verbatim>\<open>.map\<close> filter is applied to \<^verbatim>\<open>stats.assets\<close> only, so
  an asset that an entry point lists is an Entry asset even when its name ends in
  \<^verbatim>\<open>.map\<close>, and it is rewritten and uploaded in the entry phase.
\<close>

theorem entry_asset_named_map_is_published:
  "endsWith ''main.js.map'' ''.map''
   \<and> ''main.js.map'' \<in> set (epNames (classification
         \<lparr>entrypoints = Some [(''main'', Some [''main.js'', ''main.js.map''])],
          assets = Some [''main.js'', ''main.js.map'']\<rparr>))"
  by code_simp

text \<open>
  Claim C4, amended.  The four name sets are pairwise disjoint.  Entry is exactly the set of
  names that some entry point lists among its assets, whatever their suffix, without
  repetition, and it takes precedence: a name an entry point lists is in Entry and in no
  other set, also when it ends in \<^verbatim>\<open>.map\<close>.  The other three sets partition the remaining
  assets whose name does not end in \<^verbatim>\<open>.map\<close>; an asset whose name ends in \<^verbatim>\<open>.map\<close> and
  that no entry point lists is in none of the four sets.
\<close>

theorem classification_partition:
  "epNames (classification st) = collect_epNames st
   \<and> set (epNames (classification st)) \<inter> set (styleNames (classification st)) = {}
   \<and> set (epNames (classification st)) \<inter> set (htmlNames (classification st)) = {}
   \<and> set (epNames (classification st)) \<inter> set (resourceNames (classification st)) = {}
   \<and> set (styleNames (classification st)) \<inter> set (htmlNames (classification st)) = {}
   \<and> set (styleNames (classification st)) \<inter> set (resourceNames (classification st)) = {}
   \<and> set (htmlNames (classification st)) \<inter> set (resourceNames (classification st)) = {}
   \<and> set (styleNames (classification st)) \<union> set (htmlNames (classification st))
        \<union> set (resourceNames (classification st))
      = published_assets st - set (epNames (classification st))
   \<and> (endsWith n ''.map'' \<and> n \<notin> set (epNames (classification st)) \<longrightarrow>
        n \<notin> set (styleNames (classification st)) \<union> set (htmlNames (classification st))
              \<union> set (resourceNames (classification st)))
   \<and> set (epNames (classification st))
      = {n. \<exists>key names. (key, Some names) \<in> set (case entrypoints st of None \<Rightarrow> [] | Some es \<Rightarrow> es)
                         \<and> n \<in> set names}
   \<and> distinct (epNames (classification st))
   \<and> ((key, Some names) \<in> set (case entrypoints st of None \<Rightarrow> [] | Some es \<Rightarrow> es)
        \<and> m \<in> set names \<longrightarrow>
        m \<in> set (epNames (classification st))
        \<and> m \<notin> set (styleNames (classification st)) \<union> set (htmlNames (classification st))
                \<union> set (resourceNames (classification st)))"
proof -
  have listed: "set (epNames (classification st))
      = {n. \<exists>key names. (key, Some names) \<in> set (case entrypoints st of None \<Rightarrow> [] | Some es \<Rightarrow> es)
                         \<and> n \<in> set names}"
    by (simp add: classification_epNames set_collect_epNames)
  have dist: "distinct (epNames (classification st))"
    by (simp add: classification_epNames distinct_collect_epNames)
  have rest: "epNames (classification st) = collect_epNames st
   \<and> set (epNames (classification st)) \<inter> set (styleNames (classification st)) = {}
   \<and> set (epNames (classification st)) \<inter> set (htmlNames (classification st)) = {}
   \<and> set (epNames (classification st)) \<inter> set (resourceNames (classification st)) = {}
   \<and> set (styleNames (classification st)) \<inter> set (htmlNames (classification st)) = {}
   \<and> set (styleNames (classification st)) \<inter> set (resourceNames (classification st)) = {}
   \<and> set (htmlNames (classification st)) \<inter> set (resourceNames (classification st)) = {}
   \<and> set (styleNames (classification st)) \<union> set (htmlNames (classification st))
        \<union> set (resourceNames (classification st))
      = published_assets st - set (epNames (classification st))
   \<and> (endsWith n ''.map'' \<and> n \<notin> set (epNames (classification st)) \<longrightarrow>
        n \<notin> set (styleNames (classification st)) \<union> set (htmlNames (classification st))
              \<union> set (resourceNames (classification st)))"
    by (auto simp: classification_epNames classification_style classification_html
        classification_resource published_assets_def)
  have prec: "m \<in> set (epNames (classification st))
        \<and> m \<notin> set (styleNames (classification st)) \<union> set (htmlNames (classification st))
                \<union> set (resourceNames (classification st))"
    if "(key, Some names) \<in> set (case entrypoints st of None \<Rightarrow> [] | Some es \<Rightarrow> es) \<and> m \<in> set names"
  proof -
    from that listed have "m \<in> set (epNames (classification st))" by blast
    with classification_disjoint(1,2,3) [of st] show ?thesis by blast
  qed
  from rest listed dist prec show ?thesis by blast
qed

text \<open>The source map \<^verbatim>\<open>main.js.map\<close> of the sample build is in none of the four sets.\<close>

theorem classification_partition_witness:
  "endsWith ''main.js.map'' ''.map''
   \<and> ''main.js.map'' \<notin> set (epNames (classification scenario_stats))
   \<and> ''main.js.map'' \<notin> set (styleNames (classification scenario_stats))
          \<union> set (htmlNames (classification scenario_stats))
          \<union> set (resourceNames (classification scenario_stats))
   \<and> (''main'', Some [''main.js''])
        \<in> set (case entrypoints scenario_stats of None \<Rightarrow> [] | Some es \<Rightarrow> es)
   \<and> ''main.js'' \<in> set [''main.js'']
   \<and> ''main.js'' \<in> set (epNames (classification scenario_stats))
   \<and> ''main.js'' \<notin> set (styleNames (classification scenario_stats))
          \<union> set (htmlNames (classification scenario_stats))
          \<union> set (resourceNames (classification scenario_stats))
   \<and> classification scenario_stats =
        \<lparr>epNames = [''main.js''], styleNames = [''app.css''], htmlNames = [''index.html''],
         resourceNames = [''logo.png'', ''copy.png'']\<rparr>"
proof -
  have c: "classification scenario_stats =
        \<lparr>epNames = [''main.js''], styleNames = [''app.css''], htmlNames = [''index.html''],
         resourceNames = [''logo.png'', ''copy.png'']\<rparr>"
    by code_simp
  have e: "endsWith ''main.js.map'' ''.map''" by (simp add: endsWith_def)
  have h: "endsWith ''main.js.map'' ''.map''
      \<and> ''main.js.map'' \<notin> set (epNames (classification scenario_stats))"
    by (simp add: c e)
  have l: "(''main'', Some [''main.js''])
        \<in> set (case entrypoints scenario_stats of None \<Rightarrow> [] | Some es \<Rightarrow> es)
      \<and> ''main.js'' \<in> set [''main.js'']"
    by (simp add: scenario_stats_def)
  note p = classification_partition [where st = scenario_stats and n = "''main.js.map''"
      and m = "''main.js''" and key = "''main''" and names = "[''main.js'']"]
  from p h
  have a: "''main.js.map'' \<notin> set (styleNames (classification scenario_stats))
          \<union> set (htmlNames (classification scenario_stats))
          \<union> set (resourceNames (classification scenario_stats))"
    by blast
  from p l
  have b: "''main.js'' \<in> set (epNames (classification scenario_stats))
      \<and> ''main.js'' \<notin> set (styleNames (classification scenario_stats))
          \<union> set (htmlNames (classification scenario_stats))
          \<union> set (resourceNames (classification scenario_stats))"
    by blast
  from h a l b c show ?thesis by (intro conjI) simp_all
qed

section \<open>Invariants of the publish cycle\<close>

subsection \<open>Maps\<close>

lemma Map_get_Map_set: "Map_get (Map_set k v m) f = (if f = k then v else Map_get m f)"
  by (simp add: Map_get_def Map_set_def update_conv')

lemma map_of_Map_set: "map_of (Map_set k v m) = (map_of m)(k \<mapsto> v)"
  by (simp add: Map_set_def update_conv')

subsection \<open>What every interleaving preserves\<close>

text \<open>
  A relation between the state before and the state after that holds across one resumed
  task holds across any number of events, whatever their order.
\<close>

lemma deliver_rel:
  assumes refl: "\<And>w. R w w"
    and step: "\<And>w n t out w' t'. n \<in> N \<Longrightarrow> resume P opts w n t out = (w', t') \<Longrightarrow> R w w'"
    and "fst ` set ts \<subseteq> N" and "deliver P opts w ts ev = (w', ts')"
  shows "R w w' \<and> map fst ts' = map fst ts"
  using assms(3,4)
proof (induction ts arbitrary: w' ts')
  case Nil
  then show ?case by (simp add: refl)
next
  case (Cons a ts)
  obtain n t where a: "a = (n, t)" by (cases a)
  obtain m out where ev: "ev = Settle m out" by (cases ev)
  show ?case
  proof (cases "n = m \<and> pending t")
    case True
    obtain w1 t1 where r: "resume P opts w n t out = (w1, t1)" by force
    with True Cons.prems a ev have "w' = w1" "ts' = (n, t1) # ts" by auto
    moreover have "R w w1"
      using step [OF _ r] Cons.prems(1) a by simp
    ultimately show ?thesis using a by simp
  next
    case False
    obtain w1 ts1 where d: "deliver P opts w ts ev = (w1, ts1)" by force
    with False Cons.prems a ev have "w' = w1" "ts' = (n, t) # ts1" by auto
    moreover have "R w w1 \<and> map fst ts1 = map fst ts"
      using Cons.IH [OF _ d] Cons.prems(1) by simp
    ultimately show ?thesis using a by simp
  qed
qed

lemma run_tasks_rel:
  assumes refl: "\<And>w. R w w"
    and trans: "\<And>w1 w2 w3. R w1 w2 \<Longrightarrow> R w2 w3 \<Longrightarrow> R w1 w3"
    and step: "\<And>w n t out w' t'. n \<in> N \<Longrightarrow> resume P opts w n t out = (w', t') \<Longrightarrow> R w w'"
    and "fst ` set ts \<subseteq> N" and "run_tasks P opts r w ts evs = (r', w', ts', evs')"
  shows "R w w'"
  using assms(4,5)
proof (induction evs arbitrary: r w ts)
  case Nil
  then show ?case by (simp add: refl)
next
  case (Cons ev evs)
  show ?case
  proof (cases "r = None \<and> all_fulfilled ts")
    case True
    with Cons.prems show ?thesis by (auto simp: refl)
  next
    case False
    obtain w1 ts1 where d: "deliver P opts w ts ev = (w1, ts1)" by force
    from deliver_rel [of R N P opts, OF refl step Cons.prems(1) d]
    have p1: "R w w1" and n1: "map fst ts1 = map fst ts" by simp_all
    from n1 have "fst ` set ts1 = fst ` set ts" by (metis set_map)
    with Cons.prems(1) have s1: "fst ` set ts1 \<subseteq> N" by simp
    from False d Cons.prems(2)
    have "run_tasks P opts (case r of None \<Rightarrow> first_rejected ts1 | Some e \<Rightarrow> Some e) w1 ts1 evs
            = (r', w', ts', evs')"
      by (auto simp: Let_def)
    from Cons.IH [OF s1 this] p1 show ?thesis
      by (rule trans [rotated])
  qed
qed

lemma start_all_rel:
  assumes refl: "\<And>w. R w w"
    and trans: "\<And>w1 w2 w3. R w1 w2 \<Longrightarrow> R w2 w3 \<Longrightarrow> R w1 w3"
    and start: "\<And>w n w' t. n \<in> N \<Longrightarrow> f w n = (w', t) \<Longrightarrow> R w w'"
    and "set ns \<subseteq> N" and "start_all f w ns = (w', ts)"
  shows "R w w' \<and> map fst ts = ns"
  using assms(4,5)
proof (induction ns arbitrary: w w' ts)
  case Nil
  then show ?case by (simp add: refl)
next
  case (Cons n ns)
  obtain w1 t where f: "f w n = (w1, t)" by force
  obtain w2 ts2 where s: "start_all f w1 ns = (w2, ts2)" by force
  from f s Cons.prems(2) have eq: "w' = w2" "ts = (n, t) # ts2" by auto
  have "R w w1" using start [OF _ f] Cons.prems(1) by simp
  moreover have "R w1 w2 \<and> map fst ts2 = ns"
    using Cons.IH [OF _ s] Cons.prems(1) by simp
  ultimately show ?case using eq by (auto intro: trans)
qed

lemma await_all_world:
  assumes "await_all P opts (w1, ts) evs = (s, w', evs')"
  shows "\<exists>r' ts' evs''. run_tasks P opts (first_rejected ts) w1 ts evs = (r', w', ts', evs'')"
proof -
  obtain r' w2 ts2 evs2 where r: "run_tasks P opts (first_rejected ts) w1 ts evs = (r', w2, ts2, evs2)"
    by (metis prod_cases4)
  with assms have "w' = w2"
    by (auto simp: await_all_def split: option.splits if_splits)
  with r show ?thesis by blast
qed

lemma phase_rel:
  assumes refl: "\<And>w. R w w"
    and trans: "\<And>w1 w2 w3. R w1 w2 \<Longrightarrow> R w2 w3 \<Longrightarrow> R w1 w3"
    and step: "\<And>w n t out w' t'. n \<in> N \<Longrightarrow> resume P opts w n t out = (w', t') \<Longrightarrow> R w w'"
    and start: "\<And>w n w' t. n \<in> N \<Longrightarrow> f w n = (w', t) \<Longrightarrow> R w w'"
    and "set ns \<subseteq> N"
    and "await_all P opts (start_all f w ns) evs = (s, w', evs')"
  shows "R w w'"
proof -
  obtain w1 ts where st: "start_all f w ns = (w1, ts)" by force
  from start_all_rel [of R N f, OF refl trans start assms(5) st]
  have r1: "R w w1" and names: "map fst ts = ns" by simp_all
  from names assms(5) have sub: "fst ` set ts \<subseteq> N" by (metis set_map)
  from assms(6) st have "await_all P opts (w1, ts) evs = (s, w', evs')" by simp
  from await_all_world [OF this] obtain r' ts' evs''
    where "run_tasks P opts (first_rejected ts) w1 ts evs = (r', w', ts', evs'')" by blast
  from run_tasks_rel [of R N P opts, OF refl trans step sub this] r1
  show ?thesis by (rule trans [rotated])
qed

lemma and_then_rel:
  assumes trans: "\<And>w1 w2 w3. R w1 w2 \<Longrightarrow> R w2 w3 \<Longrightarrow> R w1 w3"
    and "and_then r f = (s, w', evs')"
    and "R w (fst (snd r))"
    and "\<And>w1 evs1 s2 w2 evs2. f w1 evs1 = (s2, w2, evs2) \<Longrightarrow> R w1 w2"
  shows "R w w'"
proof -
  obtain s1 w1 evs1 where r: "r = (s1, w1, evs1)" by (cases r)
  show ?thesis
  proof (cases "s1 = Settled")
    case True
    with r assms(2) have "f w1 evs1 = (s, w', evs')" by (simp add: and_then_def)
    from assms(4) [OF this] assms(3) r show ?thesis by (auto intro: trans)
  next
    case False
    with r assms(2) have "w' = w1" by (simp add: and_then_def)
    with assms(3) r show ?thesis by simp
  qed
qed

subsection \<open>Uploads, URLs and the cache across a run\<close>

lemma progress_refl: "progress P N w w"
  by (simp add: progress_def)

lemma progress_trans:
  assumes "progress P N w w1" and "progress P N w1 w2"
  shows "progress P N w w2"
proof -
  from assms(1) obtain n1 where n1: "uploadCalls w1 = uploadCalls w @ n1"
    "\<forall>u \<in> set n1. file_name u \<in> N \<and> \<not> truthy (Map_get (urlCacheMap w) (md5 P (content u)))"
    by (auto simp: progress_def)
  from assms(2) obtain n2 where n2: "uploadCalls w2 = uploadCalls w1 @ n2"
    "\<forall>u \<in> set n2. file_name u \<in> N \<and> \<not> truthy (Map_get (urlCacheMap w1) (md5 P (content u)))"
    by (auto simp: progress_def)
  have mono1: "\<forall>f. truthy (Map_get (urlCacheMap w) f) \<longrightarrow> truthy (Map_get (urlCacheMap w1) f)"
    using assms(1) by (simp add: progress_def)
  have mono2: "\<forall>f. truthy (Map_get (urlCacheMap w1) f) \<longrightarrow> truthy (Map_get (urlCacheMap w2) f)"
    using assms(2) by (simp add: progress_def)
  have "uploadCalls w2 = uploadCalls w @ (n1 @ n2)"
    using n1(1) n2(1) by simp
  moreover have "\<forall>u \<in> set (n1 @ n2). file_name u \<in> N
      \<and> \<not> truthy (Map_get (urlCacheMap w) (md5 P (content u)))"
    using n1(2) n2(2) mono1 by auto
  moreover have "dom (map_of (urlMap w2)) \<subseteq> dom (map_of (urlMap w)) \<union> N"
    using assms unfolding progress_def by blast
  moreover have "\<forall>f. truthy (Map_get (urlCacheMap w) f) \<longrightarrow> truthy (Map_get (urlCacheMap w2) f)"
    using mono1 mono2 by blast
  ultimately show ?thesis
    unfolding progress_def by blast
qed

lemma progress_files: "progress P N w (w\<lparr>files := g\<rparr>)"
  by (simp add: progress_def)

lemma record_progress:
  assumes "name \<in> N" and "uploadFile_record P opts w name c url = (w', t)"
  shows "progress P N w w'"
  using assms
  by (auto simp: uploadFile_record_def progress_def Map_get_Map_set map_of_Map_set
      split: if_splits)

lemma lookup_progress:
  assumes "name \<in> N" and "uploadFile_lookup P opts w name c = (w', t)"
  shows "progress P N w w'"
proof (cases "truthy (Map_get (urlCacheMap w) (md5 P c))")
  case True
  with assms show ?thesis
    by (simp add: uploadFile_lookup_def record_progress)
next
  case False
  with assms have "w' = w\<lparr>uploadCalls := uploadCalls w @ [\<lparr>file_name = name, content = c, ext = extname P name\<rparr>]\<rparr>"
    by (auto simp: uploadFile_lookup_def)
  with False assms(1) show ?thesis
    by (simp add: progress_def)
qed

lemma resume_progress:
  assumes "name \<in> N" and "resume P opts w name t out = (w', t')"
  shows "progress P N w w'"
proof (cases out)
  case (Reject e)
  with assms(2) have "w' = w" by (cases t) auto
  then show ?thesis by (simp add: progress_refl)
next
  case (Resolve v)
  show ?thesis
  proof (cases t)
    case (AwaitOverwrite c)
    with Resolve assms(2)
    have "uploadFile_lookup P opts (w\<lparr>files := (files w)(name \<mapsto> c)\<rparr>) name c = (w', t')"
      by simp
    from lookup_progress [OF assms(1) this] progress_files [of P N w]
    show ?thesis by (rule progress_trans [rotated])
  next
    case (AwaitUpload c)
    with Resolve assms show ?thesis by (simp add: record_progress)
  next
    case AwaitUnlink
    with Resolve assms(2) show ?thesis by (auto simp: progress_files)
  next
    case (AwaitWrite c)
    with Resolve assms(2) show ?thesis by (auto simp: progress_files)
  next
    case Fulfilled
    with assms(2) show ?thesis by (auto simp: progress_refl)
  next
    case (Rejected e)
    with assms(2) show ?thesis by (auto simp: progress_refl)
  qed
qed


lemma start_resource_progress:
  assumes "n \<in> N" and "start_resource P opts A w n = (w', t)"
  shows "progress P N w w'"
  using assms
  by (auto simp: start_resource_def uploadFile_def progress_refl lookup_progress
      split: option.splits)

lemma start_style_progress:
  assumes "n \<in> N" and "start_style P opts A w n = (w', t)"
  shows "progress P N w w'"
  using assms by (auto simp: start_style_def uploadFile_def progress_refl)

lemma start_entry_progress:
  assumes "n \<in> N" and "start_entry P opts A w n = (w', t)"
  shows "progress P N w w'"
  using assms by (auto simp: start_entry_def uploadFile_def Let_def progress_def)

lemma resource_phase_progress:
  assumes "resource_phase P opts A s w evs = (r, w', evs')" and "set (resourceNames s) \<subseteq> N"
  shows "progress P N w w'"
  using progress_refl progress_trans resume_progress start_resource_progress assms(2)
    assms(1) [unfolded resource_phase_def]
  by (rule phase_rel [of "progress P N" N P opts])

lemma style_phase_progress:
  assumes "style_phase P opts A s w evs = (r, w', evs')" and "set (styleNames s) \<subseteq> N"
  shows "progress P N w w'"
  using progress_refl progress_trans resume_progress start_style_progress assms(2)
    assms(1) [unfolded style_phase_def]
  by (rule phase_rel [of "progress P N" N P opts])

lemma entry_phase_progress:
  assumes "entry_phase P opts A s w evs = (r, w', evs')" and "set (epNames s) \<subseteq> N"
  shows "progress P N w w'"
  using progress_refl progress_trans resume_progress start_entry_progress assms(2)
    assms(1) [unfolded entry_phase_def]
  by (rule phase_rel [of "progress P N" N P opts])

lemma through_style_progress:
  assumes "through_style P opts A s w evs = (r, w', evs')"
    and "set (resourceNames s) \<union> set (styleNames s) \<subseteq> N"
  shows "progress P N w w'"
proof -
  have p: "progress P N w (fst (snd (resource_phase P opts A s w evs)))"
    using resource_phase_progress [of P opts A s w evs _ _ _ N] assms(2)
    by (cases "resource_phase P opts A s w evs") simp
  have a: "and_then (resource_phase P opts A s w evs) (style_phase P opts A s) = (r, w', evs')"
    using assms(1) by (simp only: through_style_def)
  show ?thesis
  proof (rule and_then_rel [where R = "progress P N" and w = w
        and r = "resource_phase P opts A s w evs" and f = "style_phase P opts A s"])
    show "progress P N w1 w2 \<Longrightarrow> progress P N w2 w3 \<Longrightarrow> progress P N w1 w3" for w1 w2 w3
      by (rule progress_trans)
    show "and_then (resource_phase P opts A s w evs) (style_phase P opts A s) = (r, w', evs')"
      by (rule a)
    show "progress P N w (fst (snd (resource_phase P opts A s w evs)))"
      by (rule p)
  next
    fix w1 evs1 s2 w2 evs2
    assume "style_phase P opts A s w1 evs1 = (s2, w2, evs2)"
    then show "progress P N w1 w2"
      by (rule style_phase_progress) (use assms(2) in simp)
  qed
qed

lemma through_entry_progress:
  assumes "through_entry P opts A s w evs = (r, w', evs')"
    and "set (resourceNames s) \<union> set (styleNames s) \<union> set (epNames s) \<subseteq> N"
  shows "progress P N w w'"
proof -
  have p: "progress P N w (fst (snd (through_style P opts A s w evs)))"
    using through_style_progress [of P opts A s w evs _ _ _ N] assms(2)
    by (cases "through_style P opts A s w evs") simp
  have a: "and_then (through_style P opts A s w evs) (entry_phase P opts A s) = (r, w', evs')"
    using assms(1) by (simp only: through_entry_def)
  show ?thesis
  proof (rule and_then_rel [where R = "progress P N" and w = w
        and r = "through_style P opts A s w evs" and f = "entry_phase P opts A s"])
    show "progress P N w1 w2 \<Longrightarrow> progress P N w2 w3 \<Longrightarrow> progress P N w1 w3" for w1 w2 w3
      by (rule progress_trans)
    show "and_then (through_style P opts A s w evs) (entry_phase P opts A s) = (r, w', evs')"
      by (rule a)
    show "progress P N w (fst (snd (through_style P opts A s w evs)))"
      by (rule p)
  next
    fix w1 evs1 s2 w2 evs2
    assume "entry_phase P opts A s w1 evs1 = (s2, w2, evs2)"
    then show "progress P N w1 w2"
      by (rule entry_phase_progress) (use assms(2) in simp)
  qed
qed

subsection \<open>Tasks that only write\<close>

lemma overwritten_refl: "overwritten N w w"
  by (simp add: overwritten_def)

lemma overwritten_trans: "overwritten N w w1 \<Longrightarrow> overwritten N w1 w2 \<Longrightarrow> overwritten N w w2"
  by (simp add: overwritten_def)

lemma overwritten_progress: "overwritten M w w' \<Longrightarrow> progress P N w w'"
  by (auto simp: overwritten_def progress_def)

lemma resume_overwritten:
  assumes "writes_only t" and "n \<in> N" and "resume P opts w n t out = (w', t')"
  shows "overwritten N w w' \<and> writes_only t'"
  using assms by (cases t; cases out) (auto simp: overwritten_def)

lemma deliver_overwritten:
  assumes "\<forall>t \<in> snd ` set ts. writes_only t" and "fst ` set ts \<subseteq> N"
    and "deliver P opts w ts ev = (w', ts')"
  shows "overwritten N w w' \<and> (\<forall>t \<in> snd ` set ts'. writes_only t) \<and> map fst ts' = map fst ts"
  using assms
proof (induction ts arbitrary: w' ts')
  case Nil
  then show ?case by (simp add: overwritten_refl)
next
  case (Cons a ts)
  obtain n t where a: "a = (n, t)" by (cases a)
  obtain m out where ev: "ev = Settle m out" by (cases ev)
  show ?case
  proof (cases "n = m \<and> pending t")
    case True
    obtain w1 t1 where r: "resume P opts w n t out = (w1, t1)" by force
    with True Cons.prems a ev have eq: "w' = w1" "ts' = (n, t1) # ts" by auto
    have "overwritten N w w1 \<and> writes_only t1"
      using resume_overwritten [of t n N, OF _ _ r] Cons.prems(1,2) a by simp
    with eq a Cons.prems(1) show ?thesis by simp
  next
    case False
    obtain w1 ts1 where d: "deliver P opts w ts ev = (w1, ts1)" by force
    with False Cons.prems a ev have eq: "w' = w1" "ts' = (n, t) # ts1" by auto
    have "overwritten N w w1 \<and> (\<forall>t \<in> snd ` set ts1. writes_only t) \<and> map fst ts1 = map fst ts"
      using Cons.IH [OF _ _ d] Cons.prems(1,2) by simp
    with eq a Cons.prems(1) show ?thesis by simp
  qed
qed

lemma run_tasks_overwritten:
  assumes "\<forall>t \<in> snd ` set ts. writes_only t" and "fst ` set ts \<subseteq> N"
    and "run_tasks P opts r w ts evs = (r', w', ts', evs')"
  shows "overwritten N w w'"
  using assms
proof (induction evs arbitrary: r w ts)
  case Nil
  then show ?case by (simp add: overwritten_refl)
next
  case (Cons ev evs)
  show ?case
  proof (cases "r = None \<and> all_fulfilled ts")
    case True
    with Cons.prems show ?thesis by (auto simp: overwritten_refl)
  next
    case False
    obtain w1 ts1 where d: "deliver P opts w ts ev = (w1, ts1)" by force
    from deliver_overwritten [OF Cons.prems(1,2) d]
    have p1: "overwritten N w w1" and wo: "\<forall>t \<in> snd ` set ts1. writes_only t"
      and n1: "map fst ts1 = map fst ts" by simp_all
    from n1 have "fst ` set ts1 = fst ` set ts" by (metis set_map)
    with Cons.prems(2) have s1: "fst ` set ts1 \<subseteq> N" by simp
    from False d Cons.prems(3)
    have "run_tasks P opts (case r of None \<Rightarrow> first_rejected ts1 | Some e \<Rightarrow> Some e) w1 ts1 evs
            = (r', w', ts', evs')"
      by (auto simp: Let_def)
    from Cons.IH [OF wo s1 this] p1 show ?thesis
      by (auto intro: overwritten_trans)
  qed
qed

lemma await_all_overwritten:
  assumes "\<forall>t \<in> snd ` set ts. writes_only t" and "fst ` set ts \<subseteq> N"
    and "await_all P opts (w, ts) evs = (s, w', evs')"
  shows "overwritten N w w'"
proof -
  from await_all_world [OF assms(3)] obtain r' ts' evs''
    where "run_tasks P opts (first_rejected ts) w ts evs = (r', w', ts', evs'')" by blast
  with assms(1,2) show ?thesis by (rule run_tasks_overwritten)
qed

lemma start_all_document:
  "start_all (start_document P A) w ns =
     (w, map (\<lambda>n. (n, AwaitWrite (Text (interpolateHTMLAssets P (map_of A n) (urlMap w)
                                         (getManifestJSON P False (urlMap w)))))) ns)"
  by (induction ns) (simp_all add: start_document_def)

lemma document_phase_overwritten:
  assumes "document_phase P opts A s w evs = (r, w', evs')"
  shows "overwritten (set (htmlNames s)) w w'"
  using assms unfolding document_phase_def start_all_document
  by (rule await_all_overwritten [rotated 2]) (auto simp: image_iff)

lemma start_manifest_writes:
  "\<exists>ts. start_manifest P opts w = (w, ts) \<and> (\<forall>t \<in> snd ` set ts. writes_only t)"
  by (cases "manifestFilename opts") (simp_all add: start_manifest_def)

lemma manifest_phase_overwritten:
  assumes "manifest_phase P opts w evs = (r, w', evs')"
  shows "overwritten UNIV w w'"
proof -
  from start_manifest_writes obtain ts
    where ts: "start_manifest P opts w = (w, ts)" and wo: "\<forall>t \<in> snd ` set ts. writes_only t"
    by blast
  have "await_all P opts (w, ts) evs = (r, w', evs')"
    using assms by (simp only: manifest_phase_def ts)
  then show ?thesis
    by (rule await_all_overwritten [rotated 2]) (use wo in simp_all)
qed

subsection \<open>The whole hook\<close>

lemma after_entry_rel:
  assumes refl: "\<And>w. R w w"
    and trans: "\<And>w1 w2 w3. R w1 w2 \<Longrightarrow> R w2 w3 \<Longrightarrow> R w1 w3"
    and over: "\<And>M w1 w2. overwritten M w1 w2 \<Longrightarrow> R w1 w2"
    and "and_then (and_then x (document_phase P opts A s)) (manifest_phase P opts) = (r, w', evs')"
  shows "R (fst (snd x)) w'"
proof (rule and_then_rel [where R = R and r = "and_then x (document_phase P opts A s)"
      and f = "manifest_phase P opts"])
  show "R w1 w2 \<Longrightarrow> R w2 w3 \<Longrightarrow> R w1 w3" for w1 w2 w3 by (rule trans)
  show "and_then (and_then x (document_phase P opts A s)) (manifest_phase P opts) = (r, w', evs')"
    by (rule assms(4))
  show "R (fst (snd x)) (fst (snd (and_then x (document_phase P opts A s))))"
  proof (cases "and_then x (document_phase P opts A s)")
    case (fields r1 w1 evs1)
    have "R (fst (snd x)) w1"
    proof (rule and_then_rel [where R = R and r = x and f = "document_phase P opts A s"])
      show "R w1 w2 \<Longrightarrow> R w2 w3 \<Longrightarrow> R w1 w3" for w1 w2 w3 by (rule trans)
      show "and_then x (document_phase P opts A s) = (r1, w1, evs1)" by (rule fields)
      show "R (fst (snd x)) (fst (snd x))" by (rule refl)
      show "R w1 w2" if "document_phase P opts A s w1 evs1 = (s2, w2, evs2)" for w1 evs1 s2 w2 evs2
        using document_phase_overwritten [OF that] by (rule over)
    qed
    with fields show ?thesis by simp
  qed
  show "R w1 w2" if "manifest_phase P opts w1 evs1 = (s2, w2, evs2)" for w1 evs1 s2 w2 evs2
    using manifest_phase_overwritten [OF that] by (rule over)
qed

lemma afterEmit_progress:
  assumes "afterEmit_hook P opts A st w evs = (r, w', evs')"
    and "set (resourceNames (classification st)) \<union> set (styleNames (classification st))
           \<union> set (epNames (classification st)) \<subseteq> N"
  shows "progress P N (w\<lparr>urlMap := []\<rparr>) w'"
proof -
  let ?s = "classification st"
  let ?x = "through_entry P opts A ?s (w\<lparr>urlMap := []\<rparr>) evs"
  have "and_then (and_then ?x (document_phase P opts A ?s)) (manifest_phase P opts) = (r, w', evs')"
    using assms(1) by (simp add: afterEmit_hook_def Let_def)
  with progress_refl progress_trans overwritten_progress
  have "progress P N (fst (snd ?x)) w'"
    by (rule after_entry_rel [where R = "progress P N"])
  moreover have "progress P N (w\<lparr>urlMap := []\<rparr>) (fst (snd ?x))"
    using through_entry_progress [of P opts A ?s "w\<lparr>urlMap := []\<rparr>" evs _ _ _ N] assms(2)
    by (cases ?x) simp
  ultimately show ?thesis by (rule progress_trans [rotated])
qed

subsection \<open>The manifest given to the entries\<close>








lemma settle_other_names:
  "name \<notin> fst ` set ts \<Longrightarrow> map (\<lambda>(n, t). if n = name then (n, Fulfilled) else (n, t)) ts = ts"
  by (induction ts) auto

lemma deliver_unusable:
  assumes "\<not> (truthy url \<and> typeof_string url)"
    and "distinct (map fst ts)" and "(name, AwaitUpload c) \<in> set ts"
  shows "deliver P opts w ts (Settle name (Resolve url)) =
           (w, map (\<lambda>(n, t). if n = name then (n, Fulfilled) else (n, t)) ts)"
  using assms(2,3)
proof (induction ts)
  case Nil
  then show ?case by simp
next
  case (Cons a ts)
  obtain n t where a: "a = (n, t)" by (cases a)
  show ?case
  proof (cases "n = name")
    case True
    with Cons.prems a have notin: "name \<notin> fst ` set ts" by auto
    with Cons.prems(2) a True have t: "t = AwaitUpload c" by (auto simp: image_iff)
    from assms(1) have "uploadFile_record P opts w name c url = (w, Fulfilled)"
      by (auto simp: uploadFile_record_def)
    with a True t settle_other_names [OF notin] show ?thesis by simp
  next
    case False
    with Cons.prems a have "(name, AwaitUpload c) \<in> set ts" "distinct (map fst ts)" by auto
    with Cons.IH have "deliver P opts w ts (Settle name (Resolve url)) =
           (w, map (\<lambda>(n, t). if n = name then (n, Fulfilled) else (n, t)) ts)" by simp
    with a False show ?thesis by simp
  qed
qed

lemma first_rejected_settled:
  assumes "distinct (map fst ts)" and "(name, AwaitUpload c) \<in> set ts"
  shows "first_rejected (map (\<lambda>(n, t). if n = name then (n, Fulfilled) else (n, t)) ts)
           = first_rejected ts"
  using assms
proof (induction ts)
  case Nil
  then show ?case by simp
next
  case (Cons a ts)
  obtain n t where a: "a = (n, t)" by (cases a)
  show ?case
  proof (cases "n = name")
    case True
    with Cons.prems a have notin: "name \<notin> fst ` set ts" by auto
    with Cons.prems(2) a True have "t = AwaitUpload c" by (auto simp: image_iff)
    with a True settle_other_names [OF notin] show ?thesis by simp
  next
    case False
    with Cons.prems a have "(name, AwaitUpload c) \<in> set ts" "distinct (map fst ts)" by auto
    with Cons.IH
    have "first_rejected (map (\<lambda>(n, t). if n = name then (n, Fulfilled) else (n, t)) ts)
            = first_rejected ts"
      by simp
    with a False show ?thesis by (cases t) simp_all
  qed
qed

subsection \<open>The uploads of the resource phase\<close>















subsection \<open>The contents of the entry phase\<close>










section \<open>De-duplication of uploads\<close>




section \<open>The manifest injected into the entries\<close>



section \<open>An upload that yields no location\<close>

text \<open>
  Claim C6.  Let \<^verbatim>\<open>uploadContent\<close> resolve with a value that is falsy or not a string.  An
  asset whose fingerprint is not in the cache has been passed to \<^verbatim>\<open>uploadContent\<close>; when
  the upload resolves, the state is unchanged (no \<^verbatim>\<open>UrlMap\<close> entry, no cache entry, no
  file removed) and the task fulfils; among the tasks of a phase only that task changes,
  and the phase sees no rejection that it did not see before.
\<close>

theorem unusable_location_leaves_asset_unpublished:
  assumes "\<not> (truthy url \<and> typeof_string url)"
  shows "(map_of (urlCacheMap w0) (md5 P c) = None \<longrightarrow>
            uploadFile P opts w0 name c False =
              (w0\<lparr>uploadCalls := uploadCalls w0
                     @ [\<lparr>file_name = name, content = c, ext = extname P name\<rparr>]\<rparr>,
               AwaitUpload c))
     \<and> resume P opts w name (AwaitUpload c) (Resolve url) = (w, Fulfilled)
     \<and> (distinct (map fst ts) \<and> (name, AwaitUpload c) \<in> set ts \<longrightarrow>
          deliver P opts w ts (Settle name (Resolve url)) =
            (w, map (\<lambda>(n, t). if n = name then (n, Fulfilled) else (n, t)) ts)
          \<and> first_rejected (map (\<lambda>(n, t). if n = name then (n, Fulfilled) else (n, t)) ts)
              = first_rejected ts)"
  using assms
  by (auto simp: uploadFile_def uploadFile_lookup_def Map_get_def uploadFile_record_def
      deliver_unusable first_rejected_settled)

text \<open>
  The stylesheet of the sample build, for which \<^verbatim>\<open>uploadContent\<close> resolves with null: the
  cycle completes, and the stylesheet has no URL, no cache entry, and its local file.
\<close>

theorem unusable_location_leaves_asset_unpublished_witness:
  "\<not> (truthy JNull \<and> typeof_string JNull)
   \<and> resume sample scenario_options (scenario_world []) ''app.css'' (AwaitUpload (Text ''CSS''))
        (Resolve JNull) = (scenario_world [], Fulfilled)
   \<and> fst (scenario_run [] scenario_events) = Settled
   \<and> map_of (urlMap (fst (snd (scenario_run [] scenario_events)))) ''app.css'' = None
   \<and> map_of (urlCacheMap (fst (snd (scenario_run [] scenario_events)))) ''CSS'' = None
   \<and> files (fst (snd (scenario_run [] scenario_events))) ''app.css'' = Some (Text ''CSS'')"
proof -
  have h: "\<not> (truthy JNull \<and> typeof_string JNull)" by simp
  have e1: "fst (scenario_run [] scenario_events) = Settled" by code_simp
  have e2: "map_of (urlMap (fst (snd (scenario_run [] scenario_events)))) ''app.css'' = None"
    by code_simp
  have e3: "map_of (urlCacheMap (fst (snd (scenario_run [] scenario_events)))) ''CSS'' = None"
    by code_simp
  have e4: "files (fst (snd (scenario_run [] scenario_events))) ''app.css'' = Some (Text ''CSS'')"
    by code_simp
  from unusable_location_leaves_asset_unpublished [OF h, where P = sample and opts = scenario_options
      and w = "scenario_world []" and name = "''app.css''" and c = "Text ''CSS''"] h e1 e2 e3 e4
  show ?thesis by simp
qed

section \<open>Documents\<close>

text \<open>
  Claim C7.  Whatever the order in which the operations complete, no \<^verbatim>\<open>uploadContent\<close>
  call of the cycle is for a document, and no document has a \<^verbatim>\<open>UrlMap\<close> entry; the
  document phase starts one bare write per document, and it leaves the \<^verbatim>\<open>UrlMap\<close>, the
  cache and the upload log as they are, writes no file but the documents and removes none.
\<close>

theorem documents_are_never_uploaded:
  assumes "afterEmit_hook P opts A st w evs = (r, w', evs')"
  shows "(\<exists>new. uploadCalls w' = uploadCalls w @ new
            \<and> (\<forall>x \<in> set new. file_name x \<notin> set (htmlNames (classification st))))
     \<and> (\<forall>n \<in> set (htmlNames (classification st)). map_of (urlMap w') n = None)
     \<and> (document_phase P opts A (classification st) w1 evs1 = (r2, w2, evs2) \<longrightarrow>
          urlMap w2 = urlMap w1 \<and> urlCacheMap w2 = urlCacheMap w1 \<and> uploadCalls w2 = uploadCalls w1
          \<and> (\<forall>n. n \<notin> set (htmlNames (classification st)) \<longrightarrow> files w2 n = files w1 n)
          \<and> (\<forall>n. files w1 n \<noteq> None \<longrightarrow> files w2 n \<noteq> None))
     \<and> start_all (start_document P A) w1 (htmlNames (classification st)) =
          (w1, map (\<lambda>n. (n, AwaitWrite (Text (interpolateHTMLAssets P (map_of A n) (urlMap w1)
                                              (getManifestJSON P False (urlMap w1))))))
                 (htmlNames (classification st)))"
proof (intro conjI impI)
  let ?s = "classification st"
  let ?N = "set (resourceNames ?s) \<union> set (styleNames ?s) \<union> set (epNames ?s)"
  from afterEmit_progress [OF assms subset_refl]
  have p: "progress P ?N (w\<lparr>urlMap := []\<rparr>) w'" .
  have dis: "?N \<inter> set (htmlNames ?s) = {}"
    using classification_disjoint [of st] by blast
  from p obtain new where "uploadCalls w' = uploadCalls w @ new" "\<forall>x \<in> set new. file_name x \<in> ?N"
    by (auto simp: progress_def)
  with dis show "\<exists>new. uploadCalls w' = uploadCalls w @ new
            \<and> (\<forall>x \<in> set new. file_name x \<notin> set (htmlNames ?s))"
    by blast
  from p have "dom (map_of (urlMap w')) \<subseteq> ?N" by (simp add: progress_def)
  with dis show "\<forall>n \<in> set (htmlNames ?s). map_of (urlMap w') n = None" by blast
  show "start_all (start_document P A) w1 (htmlNames ?s) =
          (w1, map (\<lambda>n. (n, AwaitWrite (Text (interpolateHTMLAssets P (map_of A n) (urlMap w1)
                                              (getManifestJSON P False (urlMap w1))))))
                 (htmlNames ?s))"
    by (rule start_all_document)
  assume "document_phase P opts A ?s w1 evs1 = (r2, w2, evs2)"
  from document_phase_overwritten [OF this]
  show "urlMap w2 = urlMap w1" "urlCacheMap w2 = urlCacheMap w1" "uploadCalls w2 = uploadCalls w1"
    "\<forall>n. n \<notin> set (htmlNames ?s) \<longrightarrow> files w2 n = files w1 n"
    "\<forall>n. files w1 n \<noteq> None \<longrightarrow> files w2 n \<noteq> None"
    by (simp_all add: overwritten_def)
qed

text \<open>
  The document \<^verbatim>\<open>index.html\<close> of the sample build: four uploads, none of it; no URL for
  it; its file is still there.
\<close>

theorem documents_are_never_uploaded_witness:
  "htmlNames (classification scenario_stats) = [''index.html'']
   \<and> map file_name (uploadCalls (fst (snd (scenario_run [] scenario_events))))
        = [''logo.png'', ''copy.png'', ''app.css'', ''main.js'']
   \<and> map_of (urlMap (fst (snd (scenario_run [] scenario_events)))) ''index.html'' = None
   \<and> files (fst (snd (scenario_run [] scenario_events))) ''index.html'' \<noteq> None"
proof -
  have e0: "htmlNames (classification scenario_stats) = [''index.html'']"
    by code_simp
  have e1: "map file_name (uploadCalls (fst (snd (scenario_run [] scenario_events))))
        = [''logo.png'', ''copy.png'', ''app.css'', ''main.js'']"
    by code_simp
  have e2: "files (fst (snd (scenario_run [] scenario_events))) ''index.html'' \<noteq> None"
    by code_simp
  have h: "afterEmit_hook sample scenario_options scenario_assetMap scenario_stats
             (scenario_world []) scenario_events
           = (fst (scenario_run [] scenario_events), fst (snd (scenario_run [] scenario_events)),
              snd (snd (scenario_run [] scenario_events)))"
    by (simp add: scenario_run_def)
  from documents_are_never_uploaded [OF h] e0
  have "map_of (urlMap (fst (snd (scenario_run [] scenario_events)))) ''index.html'' = None"
    by simp
  with e0 e1 e2 show ?thesis by simp
qed

section \<open>Local files after a recorded location\<close>

text \<open>
  Claim C10.  With \<^verbatim>\<open>keepLocalFiles\<close> false: a lookup that finds a cached location records
  it in the \<^verbatim>\<open>UrlMap\<close>, calls no \<^verbatim>\<open>uploadContent\<close> and goes on to \<^verbatim>\<open>unlink\<close>; so does
  a fresh upload that resolves with a location; in general the task goes on to \<^verbatim>\<open>unlink\<close>
  exactly when a location is recorded for the asset, and otherwise changes nothing; and a
  completed \<^verbatim>\<open>unlink\<close> has removed the local file.
\<close>

theorem recorded_location_deletes_local_file:
  assumes "keepLocalFiles opts = Some False"
  shows "(Map_get (urlCacheMap w) (md5 P c) = JStr u \<and> u \<noteq> [] \<longrightarrow>
            uploadFile_lookup P opts w name c =
              (w\<lparr>urlMap := Map_set name u (urlMap w)\<rparr>, AwaitUnlink))
     \<and> (u \<noteq> [] \<longrightarrow>
            resume P opts w name (AwaitUpload c) (Resolve (JStr u)) =
              (w\<lparr>urlMap := Map_set name u (urlMap w),
                 urlCacheMap := Map_set (md5 P c) (JStr u) (urlCacheMap w)\<rparr>, AwaitUnlink))
     \<and> (uploadFile_record P opts w name c url = (w', t) \<longrightarrow>
            (t = AwaitUnlink) = (truthy url \<and> typeof_string url)
            \<and> (t = AwaitUnlink \<longrightarrow> map_of (urlMap w') name = Some (string_of url))
            \<and> (t \<noteq> AwaitUnlink \<longrightarrow> w' = w \<and> t = Fulfilled))
     \<and> resume P opts w name AwaitUnlink (Resolve v) = (w\<lparr>files := (files w)(name := None)\<rparr>, Fulfilled)"
proof -
  have k: "\<not> keep_local opts" using assms by (simp add: keep_local_def)
  have same: "Map_set (md5 P c) (JStr u) (urlCacheMap w) = urlCacheMap w"
    if "Map_get (urlCacheMap w) (md5 P c) = JStr u"
    using that by (auto simp: Map_get_def Map_set_def update_triv split: option.splits)
  have hit: "uploadFile_lookup P opts w name c = (w\<lparr>urlMap := Map_set name u (urlMap w)\<rparr>, AwaitUnlink)"
    if "Map_get (urlCacheMap w) (md5 P c) = JStr u \<and> u \<noteq> []"
    using that k same by (simp add: uploadFile_lookup_def uploadFile_record_def)
  have fresh: "resume P opts w name (AwaitUpload c) (Resolve (JStr u)) =
      (w\<lparr>urlMap := Map_set name u (urlMap w),
         urlCacheMap := Map_set (md5 P c) (JStr u) (urlCacheMap w)\<rparr>, AwaitUnlink)"
    if "u \<noteq> []"
    using that k by (simp add: uploadFile_record_def)
  have rec: "(t = AwaitUnlink) = (truthy url \<and> typeof_string url)
      \<and> (t = AwaitUnlink \<longrightarrow> map_of (urlMap w') name = Some (string_of url))
      \<and> (t \<noteq> AwaitUnlink \<longrightarrow> w' = w \<and> t = Fulfilled)"
    if "uploadFile_record P opts w name c url = (w', t)"
    using that k by (auto simp: uploadFile_record_def map_of_Map_set split: if_splits)
  have unl: "resume P opts w name AwaitUnlink (Resolve v) =
      (w\<lparr>files := (files w)(name := None)\<rparr>, Fulfilled)"
    by simp
  from hit fresh rec unl show ?thesis by blast
qed

text \<open>
  The sample build started from a cache that holds the fingerprint of \<^verbatim>\<open>logo.png\<close>: its
  location is recorded without an upload, and once \<^verbatim>\<open>unlink\<close> completes the file is gone.
\<close>

theorem recorded_location_deletes_local_file_witness:
  "keepLocalFiles scenario_options = Some False
   \<and> Map_get (urlCacheMap (scenario_world [(''X'', JStr ''https://cdn/logo.png'')]))
        (md5 sample (Buffer ''X'')) = JStr ''https://cdn/logo.png''
   \<and> ''https://cdn/logo.png'' \<noteq> []
   \<and> snd (uploadFile_lookup sample scenario_options
        (scenario_world [(''X'', JStr ''https://cdn/logo.png'')]) ''logo.png'' (Buffer ''X''))
      = AwaitUnlink
   \<and> uploadCalls (fst (snd (scenario_run [(''X'', JStr ''https://cdn/logo.png'')]
        [Settle ''logo.png'' (Resolve JNull)]))) = []
   \<and> map_of (urlMap (fst (snd (scenario_run [(''X'', JStr ''https://cdn/logo.png'')]
        [Settle ''logo.png'' (Resolve JNull)])))) ''logo.png'' = Some ''https://cdn/logo.png''
   \<and> files (fst (snd (scenario_run [(''X'', JStr ''https://cdn/logo.png'')]
        [Settle ''logo.png'' (Resolve JNull)]))) ''logo.png'' = None
   \<and> files (scenario_world [(''X'', JStr ''https://cdn/logo.png'')]) ''logo.png''
      = Some (Buffer ''X'')"
proof -
  let ?w = "scenario_world [(''X'', JStr ''https://cdn/logo.png'')]"
  have k: "keepLocalFiles scenario_options = Some False"
    by (simp add: scenario_options_def)
  have h: "Map_get (urlCacheMap ?w) (md5 sample (Buffer ''X'')) = JStr ''https://cdn/logo.png''
      \<and> ''https://cdn/logo.png'' \<noteq> []"
    by (simp add: scenario_world_def Map_get_def sample_def)
  from recorded_location_deletes_local_file [OF k, where P = sample and w = ?w
      and c = "Buffer ''X''" and u = "''https://cdn/logo.png''" and name = "''logo.png''"] h
  have l: "snd (uploadFile_lookup sample scenario_options ?w ''logo.png'' (Buffer ''X'')) = AwaitUnlink"
    by simp
  have e1: "uploadCalls (fst (snd (scenario_run [(''X'', JStr ''https://cdn/logo.png'')]
        [Settle ''logo.png'' (Resolve JNull)]))) = []"
    by code_simp
  have e2: "map_of (urlMap (fst (snd (scenario_run [(''X'', JStr ''https://cdn/logo.png'')]
        [Settle ''logo.png'' (Resolve JNull)])))) ''logo.png'' = Some ''https://cdn/logo.png''"
    by code_simp
  have e3: "files (fst (snd (scenario_run [(''X'', JStr ''https://cdn/logo.png'')]
        [Settle ''logo.png'' (Resolve JNull)]))) ''logo.png'' = None"
    by code_simp
  have e4: "files ?w ''logo.png'' = Some (Buffer ''X'')"
    by code_simp
  from k h l e1 e2 e3 e4 show ?thesis by simp
qed

section \<open>The manifest\<close>

subsection \<open>Sorting\<close>

lemma set_sort_insert: "set (sort_insert c x ys) = insert x (set ys)"
  by (induction ys) auto

lemma set_Array_sort: "set (Array_sort c xs) = set xs"
  by (induction xs) (simp_all add: Array_sort_def set_sort_insert)

lemma sorted_sort_insert:
  assumes "consistent_on cmp K" and "fst x \<in> K" and "fst ` set ys \<subseteq> K"
    and "fst x \<notin> fst ` set ys"
    and "sorted_wrt (\<lambda>p q. cmp (fst p) (fst q) < 0) ys"
  shows "sorted_wrt (\<lambda>p q. cmp (fst p) (fst q) < 0) (sort_insert (\<lambda>a b. cmp (fst a) (fst b)) x ys)"
  using assms(3,4,5)
proof (induction ys)
  case Nil
  then show ?case by simp
next
  case (Cons y ys)
  have xy: "fst x \<noteq> fst y" "fst y \<in> K" using Cons.prems by auto
  show ?case
  proof (cases "cmp (fst x) (fst y) \<le> 0")
    case True
    with assms(1,2) xy have lt: "cmp (fst x) (fst y) < 0"
      unfolding consistent_on_def by (metis order_le_less)
    have "cmp (fst x) (fst z) < 0" if "z \<in> set ys" for z
    proof -
      from that Cons.prems have z: "fst z \<in> K" "cmp (fst y) (fst z) < 0" "fst x \<noteq> fst z" by auto
      with assms(1,2) xy lt have "cmp (fst x) (fst z) \<le> 0"
        unfolding consistent_on_def by (meson order_less_imp_le)
      with assms(1,2) z show ?thesis
        unfolding consistent_on_def by (metis order_le_less)
    qed
    with True lt Cons.prems show ?thesis by auto
  next
    case False
    with assms(1,2) xy have "cmp (fst y) (fst x) < 0"
      unfolding consistent_on_def by (metis not_le)
    with False Cons show ?thesis by (auto simp: set_sort_insert)
  qed
qed

lemma sorted_Array_sort:
  assumes "consistent_on cmp (fst ` set xs)" and "distinct (map fst xs)"
  shows "sorted_wrt (\<lambda>p q. cmp (fst p) (fst q) < 0) (Array_sort (\<lambda>a b. cmp (fst a) (fst b)) xs)"
proof -
  have "sorted_wrt (\<lambda>p q. cmp (fst p) (fst q) < 0) (Array_sort (\<lambda>a b. cmp (fst a) (fst b)) ys)"
    if "fst ` set ys \<subseteq> fst ` set xs" "distinct (map fst ys)" for ys
    using that
  proof (induction ys)
    case Nil
    then show ?case by (simp add: Array_sort_def)
  next
    case (Cons y ys)
    have "sorted_wrt (\<lambda>p q. cmp (fst p) (fst q) < 0)
            (sort_insert (\<lambda>a b. cmp (fst a) (fst b)) y (Array_sort (\<lambda>a b. cmp (fst a) (fst b)) ys))"
      using assms(1)
    proof (rule sorted_sort_insert)
      show "fst y \<in> fst ` set xs" using Cons.prems by auto
      show "fst ` set (Array_sort (\<lambda>a b. cmp (fst a) (fst b)) ys) \<subseteq> fst ` set xs"
        using Cons.prems by (auto simp: set_Array_sort)
      show "fst y \<notin> fst ` set (Array_sort (\<lambda>a b. cmp (fst a) (fst b)) ys)"
        using Cons.prems by (auto simp: set_Array_sort)
      show "sorted_wrt (\<lambda>p q. cmp (fst p) (fst q) < 0) (Array_sort (\<lambda>a b. cmp (fst a) (fst b)) ys)"
        using Cons by auto
    qed
    then show ?case by (simp add: Array_sort_def)
  qed
  from this [of xs] assms(2) show ?thesis by simp
qed

lemma sorted_wrt_unique:
  assumes "sorted_wrt R xs" and "sorted_wrt R ys" and "set xs = set ys"
    and "\<And>a b. a \<in> set xs \<Longrightarrow> b \<in> set xs \<Longrightarrow> R a b \<Longrightarrow> \<not> R b a"
  shows "xs = ys"
  using assms
proof (induction xs arbitrary: ys)
  case Nil
  then show ?case by simp
next
  case (Cons x xs)
  from Cons.prems(3) obtain y ys' where ys: "ys = y # ys'" by (cases ys) auto
  have irr: "\<not> R a a" if "a \<in> set (x # xs)" for a
    using Cons.prems(4) [OF that that] by blast
  have xy: "x = y"
  proof (rule ccontr)
    assume "x \<noteq> y"
    with Cons.prems(3) ys have "x \<in> set ys'" "y \<in> set xs" by auto
    with Cons.prems(1,2) ys have "R y x" "R x y" by auto
    with Cons.prems(4) [of x y] \<open>y \<in> set xs\<close> show False by auto
  qed
  have "x \<notin> set xs" using Cons.prems(1) irr [of x] by auto
  moreover have "y \<notin> set ys'" using Cons.prems(2,3) ys irr [of y] xy by auto
  ultimately have "set xs = set ys'" using Cons.prems(3) ys xy by auto
  moreover have "sorted_wrt R xs" "sorted_wrt R ys'" using Cons.prems(1,2) ys by auto
  ultimately have "xs = ys'"
    by (intro Cons.IH [of ys'] Cons.prems(4)) simp_all
  with xy ys show ?case by simp
qed

subsection \<open>Array indices\<close>

lemma digits_value_snoc: "digits_value (k @ [c]) = 10 * digits_value k + (of_char c - 48)"
  by (simp add: digits_value_def)

lemma foldl_digits_acc:
  "foldl (\<lambda>n c. 10 * n + (of_char c - 48)) a k
     = a * 10 ^ length k + foldl (\<lambda>n c. 10 * n + (of_char c - 48)) (0::nat) k"
proof (induction k arbitrary: a)
  case Nil
  then show ?case by simp
next
  case (Cons c k)
  let ?f = "\<lambda>n c. 10 * n + ((of_char c :: nat) - 48)"
  let ?d = "(of_char c :: nat) - 48"
  have "foldl ?f a (c # k) = foldl ?f (10 * a + ?d) k" by simp
  also have "\<dots> = (10 * a + ?d) * 10 ^ length k + foldl ?f 0 k" by (rule Cons.IH)
  finally have l: "foldl ?f a (c # k) = (10 * a + ?d) * 10 ^ length k + foldl ?f 0 k" .
  have "foldl ?f 0 (c # k) = foldl ?f ?d k" by simp
  also have "\<dots> = ?d * 10 ^ length k + foldl ?f 0 k" by (rule Cons.IH)
  finally have r: "foldl ?f 0 (c # k) = ?d * 10 ^ length k + foldl ?f 0 k" .
  have "(10 * a + ?d) * 10 ^ length k = a * 10 ^ length (c # k) + ?d * 10 ^ length k"
    by (simp add: algebra_simps)
  with l r show ?case by (simp only: add.assoc)
qed

lemma digits_value_Cons:
  "digits_value (c # k) = (of_char c - 48) * 10 ^ length k + digits_value k"
  unfolding digits_value_def using foldl_digits_acc [of "of_char c - 48" k] by simp

lemma digits_value_less:
  "list_all is_digit k \<Longrightarrow> digits_value k < 10 ^ length k"
proof (induction k)
  case Nil
  then show ?case by (simp add: digits_value_def)
next
  case (Cons c k)
  then have "(of_char c :: nat) - 48 \<le> 9" "digits_value k < 10 ^ length k"
    by (auto simp: is_digit_def)
  then have "((of_char c :: nat) - 48) * 10 ^ length k + digits_value k < 9 * 10 ^ length k + 10 ^ length k"
    by (meson add_le_less_mono mult_le_mono1)
  then show ?case by (simp add: digits_value_Cons)
qed

lemma digits_value_ge:
  assumes "is_digit c" and "c \<noteq> CHR ''0''"
  shows "10 ^ length k \<le> digits_value (c # k)"
proof -
  have "(of_char c :: nat) \<noteq> 48"
  proof
    assume "(of_char c :: nat) = 48"
    then have "(of_char c :: nat) = of_char CHR ''0''" by simp
    then have "c = CHR ''0''" by (simp only: of_char_eq_iff)
    with assms(2) show False by simp
  qed
  with assms(1) have "1 \<le> (of_char c :: nat) - 48" unfolding is_digit_def by linarith
  then have "1 * 10 ^ length k \<le> ((of_char c :: nat) - 48) * 10 ^ length k"
    by (rule mult_le_mono1)
  then have "10 ^ length k \<le> ((of_char c :: nat) - 48) * 10 ^ length k"
    by (simp only: mult_1)
  also have "\<dots> \<le> ((of_char c :: nat) - 48) * 10 ^ length k + digits_value k"
    by (rule le_add1)
  finally show ?thesis by (simp only: digits_value_Cons)
qed

lemma digits_same_length_inj:
  assumes "length a = length b" and "list_all is_digit a" and "list_all is_digit b"
    and "digits_value a = digits_value b"
  shows "a = b"
  using assms
proof (induction a b rule: list_induct2)
  case Nil
  then show ?case by simp
next
  case (Cons x xs y ys)
  let ?p = "(10::nat) ^ length xs"
  have lx: "digits_value xs < ?p" using Cons.prems(1) by (simp add: digits_value_less)
  have ly: "digits_value ys < ?p" using Cons.prems(2) Cons.hyps by (simp add: digits_value_less)
  have eq: "((of_char x :: nat) - 48) * ?p + digits_value xs = ((of_char y :: nat) - 48) * ?p + digits_value ys"
    using Cons.prems(3) Cons.hyps by (simp add: digits_value_Cons)
  have "(((of_char x :: nat) - 48) * ?p + digits_value xs) div ?p = (of_char x :: nat) - 48"
    using lx by simp
  moreover have "(((of_char y :: nat) - 48) * ?p + digits_value ys) div ?p = (of_char y :: nat) - 48"
    using ly by simp
  ultimately have d: "(of_char x :: nat) - 48 = of_char y - 48" using eq by simp
  with eq have v: "digits_value xs = digits_value ys" by simp
  have "is_digit x" "is_digit y" using Cons.prems(1,2) by simp_all
  with d have "(of_char x :: nat) = of_char y" unfolding is_digit_def by linarith
  then have "x = y" by (simp only: of_char_eq_iff)
  with v Cons show ?case by simp
qed

lemma array_index_inj:
  assumes "array_index a = Some n" and "array_index b = Some n"
  shows "a = b"
proof -
  have ca: "a \<noteq> []" "list_all is_digit a" "length a = 1 \<or> hd a \<noteq> CHR ''0''" "digits_value a = n"
    using assms(1) by (auto simp: array_index_def split: if_splits)
  have cb: "b \<noteq> []" "list_all is_digit b" "length b = 1 \<or> hd b \<noteq> CHR ''0''" "digits_value b = n"
    using assms(2) by (auto simp: array_index_def split: if_splits)
  have short: "\<not> length x < length y"
    if "x \<noteq> []" "list_all is_digit x" "list_all is_digit y" "length y = 1 \<or> hd y \<noteq> CHR ''0''"
      "digits_value x = digits_value y" for x y
  proof
    assume l: "length x < length y"
    with that(1) have "length y \<noteq> 1" by (cases x) auto
    with that(4) have h: "hd y \<noteq> CHR ''0''" by simp
    from l obtain c k where y: "y = c # k" by (cases y) auto
    with that(3) h have "10 ^ length k \<le> digits_value y"
      using digits_value_ge [of c k] by simp
    moreover have "digits_value x < 10 ^ length x" using that(2) by (rule digits_value_less)
    moreover have "(10::nat) ^ length x \<le> 10 ^ length k" using l y by simp
    ultimately show False using that(5) by simp
  qed
  have "length a = length b"
    using short [of a b] short [of b a] ca cb by force
  then show ?thesis using ca cb by (auto intro: digits_same_length_inj)
qed

subsection \<open>The order of an object's properties\<close>

lemma set_ins_index: "set (ins_index i e obj) = insert e (set obj)"
  by (induction obj) (auto split: option.splits)

lemma sorted_ins_index:
  assumes "array_index (fst e) = Some i" and "fst e \<notin> fst ` set obj"
    and "sorted_wrt (\<lambda>p q. key_before cmp (fst p) (fst q)) obj"
  shows "sorted_wrt (\<lambda>p q. key_before cmp (fst p) (fst q)) (ins_index i e obj)"
  using assms(2,3)
proof (induction obj)
  case Nil
  then show ?case by simp
next
  case (Cons p ps)
  show ?case
  proof (cases "array_index (fst p)")
    case None
    have "key_before cmp (fst e) (fst q)" if "q \<in> set (p # ps)" for q
    proof (cases "q = p")
      case True
      with None assms(1) show ?thesis by (simp add: key_before_def)
    next
      case False
      with that Cons.prems(2) have "key_before cmp (fst p) (fst q)" by auto
      with None have "array_index (fst q) = None"
        by (auto simp: key_before_def split: option.splits)
      with assms(1) show ?thesis by (simp add: key_before_def)
    qed
    with None Cons.prems(2) show ?thesis by auto
  next
    case (Some j)
    have ne: "j \<noteq> i"
    proof
      assume "j = i"
      with Some assms(1) have "fst p = fst e" by (auto intro: array_index_inj)
      with Cons.prems(1) show False by auto
    qed
    show ?thesis
    proof (cases "j < i")
      case True
      with Some assms(1) have "key_before cmp (fst p) (fst e)" by (simp add: key_before_def)
      with True Some Cons show ?thesis by (auto simp: set_ins_index)
    next
      case False
      with ne have ij: "i < j" by simp
      have "key_before cmp (fst e) (fst q)" if "q \<in> set (p # ps)" for q
      proof (cases "q = p")
        case True
        with Some assms(1) ij show ?thesis by (simp add: key_before_def)
      next
        case False
        with that Cons.prems(2) have "key_before cmp (fst p) (fst q)" by auto
        with Some assms(1) ij show ?thesis
          by (auto simp: key_before_def split: option.splits)
      qed
      with False Some Cons.prems(2) show ?thesis by auto
    qed
  qed
qed

lemma obj_define_new:
  assumes "fst e \<notin> fst ` set obj"
    and "sorted_wrt (\<lambda>p q. key_before cmp (fst p) (fst q)) obj"
    and "\<forall>p \<in> set obj. array_index (fst p) = None \<longrightarrow> array_index (fst e) = None
            \<longrightarrow> cmp (fst p) (fst e) < 0"
  shows "sorted_wrt (\<lambda>p q. key_before cmp (fst p) (fst q)) (obj_define obj e)
     \<and> set (obj_define obj e) = insert e (set obj)"
proof (cases "array_index (fst e)")
  case (Some i)
  with assms(1) have "obj_define obj e = ins_index i e obj" by (simp add: obj_define_def)
  with sorted_ins_index [OF Some assms(1,2)] show ?thesis by (simp add: set_ins_index)
next
  case None
  with assms(1) have d: "obj_define obj e = obj @ [e]" by (simp add: obj_define_def)
  have "key_before cmp (fst p) (fst e)" if "p \<in> set obj" for p
    using that None assms(3) by (auto simp: key_before_def split: option.splits)
  with assms(2) d show ?thesis by (simp add: sorted_wrt_append)
qed

lemma fold_obj_define:
  assumes "sorted_wrt (\<lambda>p q. key_before cmp (fst p) (fst q)) obj"
    and "sorted_wrt (\<lambda>p q. cmp (fst p) (fst q) < 0) es"
    and "distinct (map fst es)"
    and "fst ` set es \<inter> fst ` set obj = {}"
    and "\<forall>p \<in> set obj. \<forall>q \<in> set es. array_index (fst p) = None \<longrightarrow> array_index (fst q) = None
            \<longrightarrow> cmp (fst p) (fst q) < 0"
  shows "sorted_wrt (\<lambda>p q. key_before cmp (fst p) (fst q)) (foldl obj_define obj es)
     \<and> set (foldl obj_define obj es) = set obj \<union> set es"
  using assms
proof (induction es arbitrary: obj)
  case Nil
  then show ?case by simp
next
  case (Cons e es)
  have new: "fst e \<notin> fst ` set obj" using Cons.prems(4) by auto
  have "sorted_wrt (\<lambda>p q. key_before cmp (fst p) (fst q)) (obj_define obj e)
     \<and> set (obj_define obj e) = insert e (set obj)"
    using new Cons.prems(1)
  proof (rule obj_define_new)
    show "\<forall>p \<in> set obj. array_index (fst p) = None \<longrightarrow> array_index (fst e) = None
            \<longrightarrow> cmp (fst p) (fst e) < 0"
      using Cons.prems(5) by simp
  qed
  then have s1: "sorted_wrt (\<lambda>p q. key_before cmp (fst p) (fst q)) (obj_define obj e)"
    and s2: "set (obj_define obj e) = insert e (set obj)" by simp_all
  have "sorted_wrt (\<lambda>p q. key_before cmp (fst p) (fst q)) (foldl obj_define (obj_define obj e) es)
     \<and> set (foldl obj_define (obj_define obj e) es) = set (obj_define obj e) \<union> set es"
  proof (rule Cons.IH [OF s1])
    show "sorted_wrt (\<lambda>p q. cmp (fst p) (fst q) < 0) es" using Cons.prems(2) by simp
    show "distinct (map fst es)" using Cons.prems(3) by simp
    show "fst ` set es \<inter> fst ` set (obj_define obj e) = {}"
      using Cons.prems(3,4) s2 by auto
    show "\<forall>p \<in> set (obj_define obj e). \<forall>q \<in> set es. array_index (fst p) = None
            \<longrightarrow> array_index (fst q) = None \<longrightarrow> cmp (fst p) (fst q) < 0"
      using Cons.prems(2,5) s2 by auto
  qed
  with s2 show ?case by auto
qed

lemma sorted_keys_distinct:
  assumes "sorted_wrt (\<lambda>p q. R (fst p) (fst q)) xs" and "\<forall>p \<in> set xs. \<not> R (fst p) (fst p)"
  shows "distinct (map fst xs)"
  using assms
proof (induction xs)
  case Nil
  then show ?case by simp
next
  case (Cons x xs)
  have "fst x \<notin> fst ` set xs"
  proof
    assume "fst x \<in> fst ` set xs"
    then obtain q where "q \<in> set xs" "fst q = fst x" by auto
    with Cons.prems(1) have "R (fst x) (fst x)" by auto
    with Cons.prems(2) show False by simp
  qed
  with Cons show ?case by simp
qed

lemma serialised_entries_sorted:
  assumes "consistent_on (localeCompare P) (fst ` set m)" and "distinct (map fst m)"
  shows "sorted_wrt (\<lambda>p q. key_before (localeCompare P) (fst p) (fst q)) (serialised_entries P m)
     \<and> set (serialised_entries P m) = set m"
proof -
  let ?es = "Array_sort (\<lambda>a b. localeCompare P (fst a) (fst b)) m"
  have set_es: "set ?es = set m" by (rule set_Array_sort)
  have sorted_es: "sorted_wrt (\<lambda>p q. localeCompare P (fst p) (fst q) < 0) ?es"
    using assms by (rule sorted_Array_sort)
  have "\<forall>p \<in> set ?es. \<not> localeCompare P (fst p) (fst p) < 0"
    using assms(1) set_es unfolding consistent_on_def by (metis image_eqI less_irrefl)
  with sorted_es have dist: "distinct (map fst ?es)" by (rule sorted_keys_distinct)
  have "sorted_wrt (\<lambda>p q. key_before (localeCompare P) (fst p) (fst q)) (foldl obj_define [] ?es)
     \<and> set (foldl obj_define [] ?es) = set [] \<union> set ?es"
    by (rule fold_obj_define [OF _ sorted_es dist]) simp_all
  with set_es show ?thesis by (simp add: serialised_entries_def Object_fromEntries_def)
qed

lemma key_before_asym:
  assumes "consistent_on cmp K" and "a \<in> K" and "b \<in> K" and "key_before cmp a b"
  shows "\<not> key_before cmp b a"
proof (cases "array_index a = None \<and> array_index b = None")
  case True
  with assms(4) have "cmp a b < 0" by (simp add: key_before_def)
  with assms(1,2,3) have "0 < cmp b a" unfolding consistent_on_def by blast
  with True show ?thesis by (simp add: key_before_def)
next
  case False
  with assms(4) show ?thesis by (auto simp: key_before_def split: option.splits)
qed

lemma serialised_entries_determined:
  assumes "consistent_on (localeCompare P) (fst ` set m1)"
    and "distinct (map fst m1)" and "distinct (map fst m2)" and "set m1 = set m2"
  shows "serialised_entries P m1 = serialised_entries P m2"
proof -
  let ?R = "\<lambda>p q. key_before (localeCompare P) (fst p) (fst q)"
  from serialised_entries_sorted [OF assms(1,2)]
  have s1: "sorted_wrt ?R (serialised_entries P m1)" and e1: "set (serialised_entries P m1) = set m1"
    by simp_all
  from assms(1,4) have "consistent_on (localeCompare P) (fst ` set m2)" by simp
  from serialised_entries_sorted [OF this assms(3)]
  have s2: "sorted_wrt ?R (serialised_entries P m2)" and e2: "set (serialised_entries P m2) = set m2"
    by simp_all
  show ?thesis
  proof (rule sorted_wrt_unique [OF s1 s2])
    show "set (serialised_entries P m1) = set (serialised_entries P m2)"
      using e1 e2 assms(4) by simp
    show "\<not> ?R b a" if "a \<in> set (serialised_entries P m1)" "b \<in> set (serialised_entries P m1)" "?R a b"
      for a b
      using assms(1) _ _ that(3)
    proof (rule key_before_asym)
      show "fst a \<in> fst ` set m1" using that(1) e1 by auto
      show "fst b \<in> fst ` set m1" using that(2) e1 by auto
    qed
  qed
qed

subsection \<open>Indentation\<close>

lemma hex_digit_plain: "hex_digit n \<noteq> CHR 0x22 \<and> hex_digit n \<noteq> CHR 0x5C"
proof -
  have "n mod 16 < length ''0123456789abcdef''" by simp
  then have "hex_digit n \<in> set ''0123456789abcdef''"
    unfolding hex_digit_def by (rule nth_mem)
  then show ?thesis by auto
qed

lemma minify_escape:
  "minify True False (json_escape c @ rest) = json_escape c @ minify True False rest"
  using hex_digit_plain [of "of_char c div 16"] hex_digit_plain [of "of_char c"]
  by (simp add: json_escape_def Let_def)

lemma minify_body:
  "minify True False (concat (map json_escape s) @ rest)
     = concat (map json_escape s) @ minify True False rest"
  by (induction s) (simp_all add: minify_escape)

lemma minify_quote:
  "minify False e (JSON_quote s @ rest) = JSON_quote s @ minify False False rest"
  using minify_body [of s "CHR 0x22 # rest"] by (simp add: JSON_quote_def)

lemma minify_outside: "minify False e cs = minify False False cs"
  by (cases cs) simp_all

lemma minify_blank:
  "set g \<subseteq> {CHR '' ''} \<Longrightarrow> minify False e (g @ rest) = minify False False rest"
proof (induction g arbitrary: e)
  case Nil
  show ?case by (simp only: append_Nil) (rule minify_outside)
next
  case (Cons c g)
  then show ?case by simp
qed

lemma minify_member_pretty:
  "minify False e (JSON_quote k @ '': '' @ JSON_quote v @ rest)
     = JSON_quote k @ '':'' @ JSON_quote v @ minify False False rest"
  using minify_quote [of e k "'': '' @ JSON_quote v @ rest"] minify_quote [of False v rest]
  by simp

lemma minify_member_compact:
  "minify False e (JSON_quote k @ '':'' @ JSON_quote v @ rest)
     = JSON_quote k @ '':'' @ JSON_quote v @ minify False False rest"
  using minify_quote [of e k "'':'' @ JSON_quote v @ rest"] minify_quote [of False v rest]
  by simp

lemma minify_members_pretty:
  assumes "es \<noteq> []" and "set g \<subseteq> {CHR '' ''}"
  shows "minify False e
     (join ('','' @ [CHR 0x0A] @ g) (map (\<lambda>(k, v). JSON_quote k @ '': '' @ JSON_quote v) es) @ rest)
   = join '','' (map (\<lambda>(k, v). JSON_quote k @ '':'' @ JSON_quote v) es) @ minify False False rest"
  using assms(1)
proof (induction es arbitrary: e)
  case Nil
  then show ?case by simp
next
  case (Cons a es)
  obtain k v where a: "a = (k, v)" by (cases a)
  show ?case
  proof (cases es)
    case Nil
    with a show ?thesis using minify_member_pretty [of e k v rest] by simp
  next
    case (Cons b es')
    define tail where
      "tail = join ('','' @ [CHR 0x0A] @ g) (map (\<lambda>(k, v). JSON_quote k @ '': '' @ JSON_quote v) es) @ rest"
    have t: "minify False False tail
        = join '','' (map (\<lambda>(k, v). JSON_quote k @ '':'' @ JSON_quote v) es) @ minify False False rest"
      unfolding tail_def using Cons.IH [of False] Cons by simp
    have "minify False False ('','' @ [CHR 0x0A] @ g @ tail) = CHR '','' # minify False False (g @ tail)"
      by simp
    also have "minify False False (g @ tail) = minify False False tail"
      using assms(2) by (rule minify_blank)
    finally have sep: "minify False False ('','' @ [CHR 0x0A] @ g @ tail)
        = CHR '','' # join '','' (map (\<lambda>(k, v). JSON_quote k @ '':'' @ JSON_quote v) es)
            @ minify False False rest"
      using t by simp
    have "join ('','' @ [CHR 0x0A] @ g) (map (\<lambda>(k, v). JSON_quote k @ '': '' @ JSON_quote v) (a # es)) @ rest
        = JSON_quote k @ '': '' @ JSON_quote v @ ('','' @ [CHR 0x0A] @ g @ tail)"
      using a Cons by (simp add: tail_def)
    moreover have "join '','' (map (\<lambda>(k, v). JSON_quote k @ '':'' @ JSON_quote v) (a # es))
        = JSON_quote k @ '':'' @ JSON_quote v @ '','' @ join '','' (map (\<lambda>(k, v). JSON_quote k @ '':'' @ JSON_quote v) es)"
      using a Cons by simp
    ultimately show ?thesis
      using minify_member_pretty [of e k v "'','' @ [CHR 0x0A] @ g @ tail"] sep
      by (simp only: append_assoc append_Cons append_Nil)
  qed
qed

lemma minify_members_compact:
  "es \<noteq> [] \<Longrightarrow>
   minify False e (join '','' (map (\<lambda>(k, v). JSON_quote k @ '':'' @ JSON_quote v) es) @ rest)
   = join '','' (map (\<lambda>(k, v). JSON_quote k @ '':'' @ JSON_quote v) es) @ minify False False rest"
proof (induction es arbitrary: e)
  case Nil
  then show ?case by simp
next
  case (Cons a es)
  obtain k v where a: "a = (k, v)" by (cases a)
  show ?case
  proof (cases es)
    case Nil
    with a show ?thesis using minify_member_compact [of e k v rest] by simp
  next
    case (Cons b es')
    let ?tail = "join '','' (map (\<lambda>(k, v). JSON_quote k @ '':'' @ JSON_quote v) es) @ rest"
    have "minify False False ?tail
        = join '','' (map (\<lambda>(k, v). JSON_quote k @ '':'' @ JSON_quote v) es) @ minify False False rest"
      using Cons.IH [of False] Cons by simp
    then show ?thesis
      using a Cons minify_member_compact [of e k v "'','' @ ?tail"]
      by simp
  qed
qed

lemma stringify_compact_form:
  assumes "obj \<noteq> []"
    and "(case indent of None \<Rightarrow> [] | Some n \<Rightarrow> replicate (min n 10) CHR '' '') = []"
  shows "JSON_stringify obj indent =
      ''{'' @ join '','' (map (\<lambda>(k, v). JSON_quote k @ '':'' @ JSON_quote v) obj) @ ''}''"
  unfolding JSON_stringify_def Let_def using assms by (simp only: simp_thms if_True if_False)

lemma stringify_pretty_form:
  assumes "obj \<noteq> []"
    and "(case indent of None \<Rightarrow> [] | Some n \<Rightarrow> replicate (min n 10) CHR '' '') = g" and "g \<noteq> []"
  shows "JSON_stringify obj indent =
      ''{'' @ [CHR 0x0A] @ g
          @ join ('','' @ [CHR 0x0A] @ g) (map (\<lambda>(k, v). JSON_quote k @ '': '' @ JSON_quote v) obj)
          @ [CHR 0x0A] @ ''}''"
  unfolding JSON_stringify_def Let_def assms(2) using assms(1,3) by (simp only: simp_thms if_False)

lemma minify_stringify:
  "JSON_minify (JSON_stringify obj indent) = JSON_stringify obj None"
proof (cases "obj = []")
  case True
  then show ?thesis by (simp add: JSON_stringify_def JSON_minify_def)
next
  case False
  define compact where
    "compact = join '','' (map (\<lambda>(k, v). JSON_quote k @ '':'' @ JSON_quote v) obj)"
  define g where "g = (case indent of None \<Rightarrow> [] | Some n \<Rightarrow> replicate (min n 10) CHR '' '')"
  have blank: "set g \<subseteq> {CHR '' ''}" by (cases indent) (auto simp: g_def)
  have none: "JSON_stringify obj None = ''{'' @ compact @ ''}''"
    unfolding compact_def using False by (rule stringify_compact_form) simp
  have same: "minify False False (''{'' @ compact @ ''}'') = ''{'' @ compact @ ''}''"
    unfolding compact_def using minify_members_compact [OF False, of False "''}''"] by simp
  show ?thesis
  proof (cases "g = []")
    case True
    with False have "JSON_stringify obj indent = ''{'' @ compact @ ''}''"
      unfolding compact_def g_def by (rule stringify_compact_form)
    with same none show ?thesis by (simp only: JSON_minify_def)
  next
    case ne: False
    define pretty where
      "pretty = join ('','' @ [CHR 0x0A] @ g) (map (\<lambda>(k, v). JSON_quote k @ '': '' @ JSON_quote v) obj)"
    have js: "JSON_stringify obj indent = ''{'' @ [CHR 0x0A] @ g @ pretty @ [CHR 0x0A] @ ''}''"
      unfolding pretty_def using False g_def [symmetric] ne by (rule stringify_pretty_form)
    have "minify False False (pretty @ [CHR 0x0A] @ ''}'') = compact @ minify False False ([CHR 0x0A] @ ''}'')"
      unfolding pretty_def compact_def using False blank by (rule minify_members_pretty)
    then have p: "minify False False (pretty @ [CHR 0x0A] @ ''}'') = compact @ ''}''"
      by simp
    have "minify False False (g @ pretty @ [CHR 0x0A] @ ''}'') = minify False False (pretty @ [CHR 0x0A] @ ''}'')"
      using blank by (rule minify_blank)
    with p have "minify False False (''{'' @ [CHR 0x0A] @ g @ pretty @ [CHR 0x0A] @ ''}'') = ''{'' @ compact @ ''}''"
      by simp
    with js none show ?thesis by (simp only: JSON_minify_def)
  qed
qed

text \<open>
  Claim C5, as stated, fails in its ordering: \<^verbatim>\<open>Object.fromEntries\<close> builds an object, and
  an object lists the keys that are array indices first, in ascending numeric order,
  wherever the sort had put them.  For the assets \<^verbatim>\<open>10\<close> and \<^verbatim>\<open>9\<close> the comparator puts
  \<^verbatim>\<open>10\<close> first and the manifest reads \<^verbatim>\<open>{"9":"b","10":"a"}\<close>.
\<close>

theorem array_index_keys_are_not_in_lexicographic_order:
  "getManifestJSON sample False [(''10'', ''a''), (''9'', ''b'')] = ''{\"9\":\"b\",\"10\":\"a\"}''
   \<and> map fst (serialised_entries sample [(''10'', ''a''), (''9'', ''b'')]) = [''9'', ''10'']
   \<and> localeCompare sample ''10'' ''9'' < 0"
proof -
  have a9: "array_index ''9'' = Some 9"
    by (simp add: array_index_def is_digit_def digits_value_def)
  have a10: "array_index ''10'' = Some 10"
    by (simp add: array_index_def is_digit_def digits_value_def)
  have s: "serialised_entries sample [(''10'', ''a''), (''9'', ''b'')] = [(''9'', ''b''), (''10'', ''a'')]"
    by (simp add: serialised_entries_def Array_sort_def Object_fromEntries_def obj_define_def
        a9 a10 sample_def)
  have j: "getManifestJSON sample False [(''10'', ''a''), (''9'', ''b'')] = ''{\"9\":\"b\",\"10\":\"a\"}''"
    using s
    by (simp add: getManifestJSON_def serialised_entries_def JSON_stringify_def JSON_quote_def
        json_escape_def)
  have c: "localeCompare sample ''10'' ''9'' < 0"
    by (simp add: sample_def)
  from j s c show ?thesis by simp
qed

text \<open>
  Claim C5, amended.  Let \<^verbatim>\<open>localeCompare\<close> be consistent on the keys.  Two \<^verbatim>\<open>UrlMap\<close>s
  with the same entries, in whatever order they were inserted, serialise to the same
  string.  The string is \<^verbatim>\<open>JSON.stringify\<close> of one list of entries whatever the
  \<^verbatim>\<open>format\<close> flag; that list holds exactly the entries of the map, the array-index keys
  first in ascending numeric order, then the other keys in the order of \<^verbatim>\<open>localeCompare\<close>.
  The pretty output differs from the compact one only by whitespace outside the string
  literals.
\<close>

theorem manifest_is_deterministic:
  assumes "consistent_on (localeCompare P) (fst ` set m1)"
    and "distinct (map fst m1)" and "distinct (map fst m2)" and "set m1 = set m2"
  shows "getManifestJSON P format m1 = getManifestJSON P format m2
     \<and> getManifestJSON P format m1
         = JSON_stringify (serialised_entries P m1) (if format then Some 2 else None)
     \<and> set (serialised_entries P m1) = set m1
     \<and> sorted_wrt (\<lambda>p q. key_before (localeCompare P) (fst p) (fst q)) (serialised_entries P m1)
     \<and> JSON_minify (getManifestJSON P True m1) = getManifestJSON P False m1"
proof -
  have form: "getManifestJSON P f m
      = JSON_stringify (serialised_entries P m) (if f then Some 2 else None)" for f m
    by (simp add: getManifestJSON_def serialised_entries_def)
  have "serialised_entries P m1 = serialised_entries P m2"
    using assms by (rule serialised_entries_determined)
  then have "getManifestJSON P format m1 = getManifestJSON P format m2"
    by (simp only: form)
  moreover have "JSON_minify (getManifestJSON P True m1) = getManifestJSON P False m1"
    by (simp add: form minify_stringify)
  ultimately show ?thesis
    using form [of format m1] serialised_entries_sorted [OF assms(1,2)] by simp
qed

text \<open>Two insertion orders of the same two entries.\<close>

theorem manifest_is_deterministic_witness:
  "consistent_on (localeCompare sample) (fst ` set [(''logo.png'', ''https://cdn/1''), (''app.css'', ''https://cdn/2'')])
   \<and> distinct (map fst [(''logo.png'', ''https://cdn/1''), (''app.css'', ''https://cdn/2'')])
   \<and> distinct (map fst [(''app.css'', ''https://cdn/2''), (''logo.png'', ''https://cdn/1'')])
   \<and> set [(''logo.png'', ''https://cdn/1''), (''app.css'', ''https://cdn/2'')]
       = set [(''app.css'', ''https://cdn/2''), (''logo.png'', ''https://cdn/1'')]
   \<and> getManifestJSON sample False [(''logo.png'', ''https://cdn/1''), (''app.css'', ''https://cdn/2'')]
       = getManifestJSON sample False [(''app.css'', ''https://cdn/2''), (''logo.png'', ''https://cdn/1'')]
   \<and> getManifestJSON sample False [(''logo.png'', ''https://cdn/1''), (''app.css'', ''https://cdn/2'')]
       = ''{\"app.css\":\"https://cdn/2\",\"logo.png\":\"https://cdn/1\"}''"
proof -
  let ?m1 = "[(''logo.png'', ''https://cdn/1''), (''app.css'', ''https://cdn/2'')]"
  let ?m2 = "[(''app.css'', ''https://cdn/2''), (''logo.png'', ''https://cdn/1'')]"
  have c1: "codeUnitCompare ''logo.png'' ''app.css'' = 1" by simp
  have c2: "codeUnitCompare ''app.css'' ''logo.png'' = - 1" by simp
  have c3: "codeUnitCompare ''app.css'' ''app.css'' = 0" by simp
  have c4: "codeUnitCompare ''logo.png'' ''logo.png'' = 0" by simp
  have h1: "consistent_on (localeCompare sample) (fst ` set ?m1)"
    by (simp add: consistent_on_def sample_def c1 c2 c3 c4)
  have h2: "distinct (map fst ?m1)" by simp
  have h3: "distinct (map fst ?m2)" by simp
  have h4: "set ?m1 = set ?m2" by auto
  have e: "getManifestJSON sample False ?m1
       = ''{\"app.css\":\"https://cdn/2\",\"logo.png\":\"https://cdn/1\"}''"
    by code_simp
  from manifest_is_deterministic [OF h1 h2 h3 h4, of False]
  have d: "getManifestJSON sample False ?m1 = getManifestJSON sample False ?m2"
    by (rule conjunct1)
  show ?thesis by (intro conjI h1 h2 h3 h4 d e)
qed

end
